theory Spec2Isabelle
  imports Main "HOL-Library.Sublist"
begin

section \<open>Python string operations used by the engine\<close>

text \<open>
  Text is modelled as \<^typ>\<open>string\<close>, one \<^typ>\<open>char\<close> per character, read as ASCII:
  the classifications and case mappings below are those of Python's \<open>str\<close> on the
  code points 0 to 127. A \<^typ>\<open>char\<close> of value 128 or more is treated as a caseless
  symbol that is neither whitespace nor a word character; it stands for no character
  of the source, and every concrete input of these functions is plain ASCII. Text beyond
  ASCII is the matter of the section on code points.
\<close>

definition is_space :: "char \<Rightarrow> bool" where
  \<comment> \<open>\<open>str.isspace\<close> on ASCII: TAB, LF, VT, FF, CR, FS, GS, RS, US and the blank.\<close>
  "is_space c = (let n = (of_char c :: nat) in (9 \<le> n \<and> n \<le> 13) \<or> (28 \<le> n \<and> n \<le> 32))"

definition is_upper :: "char \<Rightarrow> bool" where
  "is_upper c = (let n = (of_char c :: nat) in 65 \<le> n \<and> n \<le> 90)"

definition is_lower :: "char \<Rightarrow> bool" where
  "is_lower c = (let n = (of_char c :: nat) in 97 \<le> n \<and> n \<le> 122)"

definition is_digit :: "char \<Rightarrow> bool" where
  "is_digit c = (let n = (of_char c :: nat) in 48 \<le> n \<and> n \<le> 57)"

definition is_cased :: "char \<Rightarrow> bool" where
  "is_cased c = (is_upper c \<or> is_lower c)"

definition is_word_char :: "char \<Rightarrow> bool" where
  \<comment> \<open>the class \<open>\w\<close> of \<open>re\<close> on ASCII; \<open>\W\<close> is its complement\<close>
  "is_word_char c = (is_upper c \<or> is_lower c \<or> is_digit c \<or> c = CHR ''_'')"

definition to_lower :: "char \<Rightarrow> char" where
  "to_lower c = (if is_upper c then char_of (of_char c + (32::nat)) else c)"

definition to_upper :: "char \<Rightarrow> char" where
  "to_upper c = (if is_lower c then char_of (of_char c - (32::nat)) else c)"

definition lower :: "string \<Rightarrow> string" where
  \<comment> \<open>\<open>s.lower()\<close>\<close>
  "lower s = map to_lower s"

fun title_from :: "bool \<Rightarrow> string \<Rightarrow> string" where
  \<comment> \<open>the loop of \<open>s.title()\<close>; the flag is \<open>previous_is_cased\<close>\<close>
  "title_from prev [] = []"
| "title_from prev (c # cs) =
     (if prev then to_lower c else to_upper c) # title_from (is_cased c) cs"

definition title :: "string \<Rightarrow> string" where
  \<comment> \<open>\<open>s.title()\<close>\<close>
  "title s = title_from False s"

definition strip :: "string \<Rightarrow> string" where
  \<comment> \<open>\<open>s.strip()\<close>: whitespace removed at both ends\<close>
  "strip s = rev (dropWhile is_space (rev (dropWhile is_space s)))"

definition count_char :: "char \<Rightarrow> string \<Rightarrow> nat" where
  \<comment> \<open>\<open>s.count(c)\<close> for a one-character argument\<close>
  "count_char c s = length (filter (\<lambda>d. d = c) s)"

fun split_on :: "(char \<Rightarrow> bool) \<Rightarrow> string \<Rightarrow> string list" where
  \<comment> \<open>\<open>re.split(r'[,;]', s)\<close>, \<open>s.split(',')\<close>, \<open>s.split(' ')\<close>: one cut per separator
      character, empty pieces kept; the result is never empty\<close>
  "split_on sep [] = [[]]"
| "split_on sep (c # cs) =
     (if sep c then [] # split_on sep cs
      else (case split_on sep cs of
              [] \<Rightarrow> [[c]]
            | piece # pieces \<Rightarrow> (c # piece) # pieces))"

fun split_ws :: "string \<Rightarrow> string list" where
  \<comment> \<open>\<open>s.split()\<close>: the maximal runs of non-whitespace characters\<close>
  "split_ws [] = []"
| "split_ws (c # cs) =
     (if is_space c then split_ws cs
      else (case cs of
              [] \<Rightarrow> [[c]]
            | d # ds \<Rightarrow>
                if is_space d then [c] # split_ws cs
                else (case split_ws cs of
                        [] \<Rightarrow> [[c]]
                      | w # ws \<Rightarrow> (c # w) # ws)))"

fun join :: "string \<Rightarrow> string list \<Rightarrow> string" where
  \<comment> \<open>\<open>sep.join(parts)\<close>\<close>
  "join sep [] = []"
| "join sep [p] = p"
| "join sep (p # q # ps) = p @ sep @ join sep (q # ps)"

fun contains :: "string \<Rightarrow> string \<Rightarrow> bool" where
  \<comment> \<open>\<open>b in s\<close> on strings: \<open>b\<close> occurs in \<open>s\<close> as a contiguous substring\<close>
  "contains b [] = (b = [])"
| "contains b (c # cs) = (prefix b (c # cs) \<or> contains b cs)"

definition strip_nonword :: "string \<Rightarrow> string" where
  \<comment> \<open>\<open>re.sub(r'^\W+|\W+$', '', s)\<close>: the leading and the trailing run of non-word
      characters are removed\<close>
  "strip_nonword s =
     rev (dropWhile (\<lambda>c. \<not> is_word_char c) (rev (dropWhile (\<lambda>c. \<not> is_word_char c) s)))"

fun str_nat :: "nat \<Rightarrow> string" where
  \<comment> \<open>\<open>str(n)\<close> for a non-negative integer: its decimal digits\<close>
  "str_nat n =
     (if n < 10 then [char_of (48 + n)]
      else str_nat (n div 10) @ [char_of (48 + n mod 10)])"

declare str_nat.simps [simp del]


section \<open>Keyword normalisation: \<open>IngestionEngine.process_keywords\<close>\<close>

text \<open>
  The generative model is the engine's environment. A \<open>rewriter\<close> gives, for the number
  of calls made before and the phrase put into the harvest-loop prompt, either \<open>None\<close>
  (\<open>generate_content\<close> or \<open>res.text\<close> raised) or the text of the response. The catalog
  ban list is the already loaded content of \<open>Banned_Keywords.txt\<close>: its stripped,
  lowercased, non-empty lines (the empty list when the file or folder is missing).
  Configuring the client and building the prompt, which stand outside the \<open>try\<close>, are
  taken to succeed. Python's sets of ban entries are lists here: the source only asks
  whether some entry matches.
\<close>

type_synonym rewriter = "nat \<Rightarrow> string \<Rightarrow> string option"

definition global_bans :: "string list" where
  "global_bans = [''epic'', ''huge'', ''massive'', ''awesome'', ''badass'']"

definition is_comma_or_semicolon :: "char \<Rightarrow> bool" where
  "is_comma_or_semicolon c = (c = CHR '','' \<or> c = CHR '';'')"

definition kw_list :: "string \<Rightarrow> string list" where
  \<comment> \<open>\<open>[k.strip() for k in re.split(r'[,;]', keywords_raw) if k.strip()]\<close>\<close>
  "kw_list keywords_raw =
     map strip (filter (\<lambda>k. strip k \<noteq> []) (split_on is_comma_or_semicolon keywords_raw))"

definition count_spaces :: "string \<Rightarrow> nat" where
  \<comment> \<open>\<open>kw.count(' ')\<close>\<close>
  "count_spaces kw = count_char CHR '' '' kw"

definition corrected_keyword :: "string option \<Rightarrow> string \<Rightarrow> string" where
  \<comment> \<open>the body of \<open>try\<close> and its \<open>except\<close> branch, for one response of the model\<close>
  "corrected_keyword response kw =
     (case response of
        None \<Rightarrow> kw
      | Some text \<Rightarrow> (let new_kw = strip text in if new_kw \<noteq> [] then new_kw else kw))"

fun correct_keywords :: "rewriter \<Rightarrow> string list \<Rightarrow> string list \<Rightarrow> string list \<times> string list" where
  \<comment> \<open>the first loop; the second argument is the log of phrases sent to the model so
      far, returned extended beside the corrected keywords\<close>
  "correct_keywords rw calls [] = ([], calls)"
| "correct_keywords rw calls (kw # kws) =
     (if count_spaces kw > 2 then
        (let new_kw = corrected_keyword (rw (length calls) kw) kw;
             rest = correct_keywords rw (calls @ [kw]) kws
         in (new_kw # fst rest, snd rest))
      else
        (let rest = correct_keywords rw calls kws
         in (kw # fst rest, snd rest)))"

definition has_ban :: "string list \<Rightarrow> string \<Rightarrow> bool" where
  "has_ban banned_from_catalog kw_lower =
     ((\<exists>ban \<in> set global_bans. ban \<in> set (split_ws kw_lower)) \<or>
      (\<exists>ban \<in> set banned_from_catalog. contains ban kw_lower))"

definition final_kw :: "string \<Rightarrow> string" where
  \<comment> \<open>the forced truncation to three words, and the title casing\<close>
  "final_kw kw =
     (let parts = split_ws (lower kw)
      in if length parts > 3 then title (join '' '' (take 3 parts)) else title kw)"

fun final_keywords :: "string list \<Rightarrow> string list \<Rightarrow> string list" where
  \<comment> \<open>the second loop: the case-insensitive ban check\<close>
  "final_keywords banned_from_catalog [] = []"
| "final_keywords banned_from_catalog (kw # kws) =
     (let kw_lower = lower kw
      in if \<not> has_ban banned_from_catalog kw_lower \<and> kw_lower \<notin> set global_bans
            \<and> kw_lower \<notin> set banned_from_catalog
         then final_kw kw # final_keywords banned_from_catalog kws
         else final_keywords banned_from_catalog kws)"

definition process_keywords :: "rewriter \<Rightarrow> string list \<Rightarrow> string \<Rightarrow> string" where
  "process_keywords rw banned_from_catalog keywords_raw =
     (if keywords_raw = [] then []
      else join '', ''
             (final_keywords banned_from_catalog
                (fst (correct_keywords rw [] (kw_list keywords_raw)))))"

definition rewriter_calls :: "rewriter \<Rightarrow> string \<Rightarrow> string list" where
  \<comment> \<open>the phrases for which \<open>generate_content\<close> is called during one run, in call order\<close>
  "rewriter_calls rw keywords_raw =
     (if keywords_raw = [] then [] else snd (correct_keywords rw [] (kw_list keywords_raw)))"


section \<open>The Clean Room validator: \<open>IngestionEngine.validate_data\<close>\<close>

text \<open>
  A track is a dictionary; a field is \<open>None\<close> when its key is absent. So is \<open>data\<close>.
  Values are strings, as the application stores them. The errors are kept as values of
  a datatype, in the order in which the source appends them; \<open>error_message\<close> gives the
  text of each, and \<open>validate_data\<close> returns the texts.
\<close>

record track =
  Title :: "string option"
  Keywords :: "string option"
  Track_Description :: "string option"

record album_data =
  tracks :: "track list option"
  album_description :: "string option"
  album_name :: "string option"
  cover_art :: "string option"
  mailchimp_intro :: "string option"

definition get_or :: "'a option \<Rightarrow> 'a \<Rightarrow> 'a" where
  \<comment> \<open>\<open>d.get(key, default)\<close>\<close>
  "get_or entry dflt = (case entry of Some v \<Rightarrow> v | None \<Rightarrow> dflt)"

datatype violation =
    TooManySpaces string string
  | BannedKeyword string string
  | AntigravityProtocol string string
  | AlbumDescriptionBanned
  | AlbumNameBanned
  | NoTrackData

fun error_message :: "violation \<Rightarrow> string" where
  "error_message (TooManySpaces ttl kw) =
     ''ERROR: Track '' @ [CHR 0x27] @ ttl @ [CHR 0x27] @ '' keyword '' @ [CHR 0x27] @ kw
       @ [CHR 0x27] @ '' contains too many spaces (>2).''"
| "error_message (BannedKeyword ttl kw) =
     ''ERROR: Track '' @ [CHR 0x27] @ ttl @ [CHR 0x27] @ '' keyword '' @ [CHR 0x27] @ kw
       @ [CHR 0x27] @ '' contains a banned word.''"
| "error_message (AntigravityProtocol ttl first_word) =
     ''ERROR: Track '' @ [CHR 0x27] @ ttl @ [CHR 0x27]
       @ '' description violates the Antigravity Protocol (Starts with '' @ [CHR 0x27]
       @ first_word @ [CHR 0x27] @ '').''"
| "error_message AlbumDescriptionBanned = ''ERROR: Album Description contains a banned word.''"
| "error_message AlbumNameBanned = ''ERROR: Album Name contains a banned word.''"
| "error_message NoTrackData = ''ERROR: No track data found to export.''"

definition any_ban_in :: "string list \<Rightarrow> string \<Rightarrow> bool" where
  \<comment> \<open>\<open>any(b in text for b in banned)\<close>\<close>
  "any_ban_in banned text = (\<exists>b \<in> set banned. contains b text)"

definition keyword_errors :: "string list \<Rightarrow> string \<Rightarrow> string \<Rightarrow> violation list" where
  \<comment> \<open>the body of the loop over \<open>kw_str.split(',')\<close>\<close>
  "keyword_errors banned ttl piece =
     (let kw = strip piece
      in (if count_char CHR '' '' kw > 2 then [TooManySpaces ttl kw] else [])
         @ (if any_ban_in banned (lower kw) then [BannedKeyword ttl kw] else []))"

definition description_errors :: "string \<Rightarrow> string \<Rightarrow> violation list" where
  "description_errors ttl description =
     (let desc = strip description
      in if desc \<noteq> [] then
           (let first_word = strip_nonword (lower (hd (split_on (\<lambda>c. c = CHR '' '') desc)))
            in if first_word \<in> set [''a'', ''an'', ''the'']
               then [AntigravityProtocol ttl first_word] else [])
         else [])"

definition track_errors :: "string list \<Rightarrow> nat \<Rightarrow> track \<Rightarrow> violation list" where
  \<comment> \<open>the body of the loop over \<open>enumerate(tracks)\<close>\<close>
  "track_errors banned i t =
     (let ttl = get_or (Title t) (''Track '' @ str_nat (i + 1));
          kw_str = get_or (Keywords t) []
      in (if kw_str \<noteq> []
          then concat (map (keyword_errors banned ttl) (split_on (\<lambda>c. c = CHR '','') kw_str))
          else [])
         @ description_errors ttl (get_or (Track_Description t) []))"

fun tracks_errors :: "string list \<Rightarrow> nat \<Rightarrow> track list \<Rightarrow> violation list" where
  "tracks_errors banned i [] = []"
| "tracks_errors banned i (t # ts) = track_errors banned i t @ tracks_errors banned (Suc i) ts"

definition validate_errors :: "string list \<Rightarrow> album_data \<Rightarrow> violation list" where
  "validate_errors banned_from_catalog data =
     (let banned = global_bans @ banned_from_catalog;
          trks = get_or (tracks data) []
      in tracks_errors banned 0 trks
         @ (if any_ban_in banned (lower (get_or (album_description data) []))
            then [AlbumDescriptionBanned] else [])
         @ (if any_ban_in banned (lower (get_or (album_name data) []))
            then [AlbumNameBanned] else [])
         @ (if trks = [] then [NoTrackData] else []))"

definition validate_data :: "string list \<Rightarrow> album_data \<Rightarrow> bool \<times> string list" where
  \<comment> \<open>\<open>return len(errors) == 0, errors\<close>\<close>
  "validate_data banned_from_catalog data =
     (let errors = map error_message (validate_errors banned_from_catalog data)
      in (length errors = 0, errors))"


section \<open>The archive compiler: \<open>IngestionEngine.compile_final_package\<close>\<close>

text \<open>
  The archive is the list of entries written, in order: a name and its content. A table
  is what \<open>pandas\<close> serialises with \<open>to_csv(index=False)\<close>: the column names and one row
  per record, a cell being \<open>None\<close> where the record lacks the key. Selecting a column
  that no record has raises \<open>KeyError\<close>.
\<close>

datatype py_error = KeyError "string list"

datatype artifact = Csv "string list" "string option list list" | Txt string

type_synonym archive = "(string \<times> artifact) list"

definition track_field :: "string \<Rightarrow> track \<Rightarrow> string option" where
  "track_field key t =
     (if key = ''Title'' then Title t
      else if key = ''Keywords'' then Keywords t
      else if key = ''Track Description'' then Track_Description t
      else None)"

definition select_columns :: "track list \<Rightarrow> string list \<Rightarrow> py_error + artifact" where
  \<comment> \<open>\<open>pd.DataFrame(records)[columns]\<close>\<close>
  "select_columns records columns =
     (let missing = filter (\<lambda>key. \<forall>t \<in> set records. track_field key t = None) columns
      in if missing \<noteq> [] then Inl (KeyError missing)
         else Inr (Csv columns (map (\<lambda>t. map (\<lambda>key. track_field key t) columns) records)))"

definition text_entries :: "album_data \<Rightarrow> archive" where
  "text_entries data =
     [(''03 Album Description/Album_Description.txt'', Txt (get_or (album_description data) [])),
      (''04 Album Name/Album_Name.txt'', Txt (get_or (album_name data) [])),
      (''05 Album Cover Art/MidJourney_Prompts.txt'', Txt (get_or (cover_art data) [])),
      (''06 MailChimp Intro/MailChimp_Copy.txt'', Txt (get_or (mailchimp_intro data) []))]"

definition compile_final_package :: "album_data \<Rightarrow> py_error + archive" where
  "compile_final_package data =
     (case tracks data of
        None \<Rightarrow> Inr (text_entries data)
      | Some trks \<Rightarrow>
          if trks = [] then Inr (text_entries data)
          else (case select_columns trks [''Title'', ''Keywords''] of
                  Inl e \<Rightarrow> Inl e
                | Inr df_kw \<Rightarrow>
                    (case select_columns trks [''Title'', ''Track Description''] of
                       Inl e \<Rightarrow> Inl e
                     | Inr df_desc \<Rightarrow>
                         Inr ([(''01 Track Keywords/Track_Keywords.csv'', df_kw),
                               (''02 Track Descriptions/Track_Descriptions.csv'', df_desc)]
                              @ text_entries data))))"



section \<open>Normalisation on code points\<close>

text \<open>
  Python's \<open>str\<close> is a sequence of code points, and \<open>lower()\<close> and \<open>title()\<close> may give
  several code points for one. The definitions of this section are the definitions of
  \<open>process_keywords\<close> above, written over code points. The whitespace table is that of
  \<open>str.isspace\<close> in full. The case tables hold the rows of ASCII and two more: U+01F0
  (small j with caron) is cased, is its own lowercase and has the title case U+004A
  U+030C; U+030C (combining caron) is not cased. Rows not listed are not modelled and
  read as caseless.
\<close>

type_synonym codepoint = int

type_synonym pystr = "codepoint list"

definition py :: "string \<Rightarrow> pystr" where
  \<comment> \<open>the code points of a literal\<close>
  "py s = map of_char s"

definition is_space_cp :: "codepoint \<Rightarrow> bool" where
  "is_space_cp n =
     ((9 \<le> n \<and> n \<le> 13) \<or> (28 \<le> n \<and> n \<le> 32) \<or> n = 0x85 \<or> n = 0xA0 \<or> n = 0x1680
      \<or> (0x2000 \<le> n \<and> n \<le> 0x200A) \<or> n = 0x2028 \<or> n = 0x2029 \<or> n = 0x202F
      \<or> n = 0x205F \<or> n = 0x3000)"

definition is_cased_cp :: "codepoint \<Rightarrow> bool" where
  "is_cased_cp n = ((65 \<le> n \<and> n \<le> 90) \<or> (97 \<le> n \<and> n \<le> 122) \<or> n = 0x1F0)"

definition lower_cp :: "codepoint \<Rightarrow> pystr" where
  "lower_cp n = (if 65 \<le> n \<and> n \<le> 90 then [n + 32] else [n])"

definition title_cp :: "codepoint \<Rightarrow> pystr" where
  "title_cp n =
     (if 97 \<le> n \<and> n \<le> 122 then [n - 32]
      else if n = 0x1F0 then [0x4A, 0x30C]
      else [n])"

definition lower_u :: "pystr \<Rightarrow> pystr" where
  "lower_u s = concat (map lower_cp s)"

fun title_from_u :: "bool \<Rightarrow> pystr \<Rightarrow> pystr" where
  "title_from_u prev [] = []"
| "title_from_u prev (c # cs) =
     (if prev then lower_cp c else title_cp c) @ title_from_u (is_cased_cp c) cs"

definition title_u :: "pystr \<Rightarrow> pystr" where
  "title_u s = title_from_u False s"

definition strip_u :: "pystr \<Rightarrow> pystr" where
  "strip_u s = rev (dropWhile is_space_cp (rev (dropWhile is_space_cp s)))"

definition count_spaces_u :: "pystr \<Rightarrow> nat" where
  "count_spaces_u kw = length (filter (\<lambda>n. n = 32) kw)"

fun split_on_u :: "(codepoint \<Rightarrow> bool) \<Rightarrow> pystr \<Rightarrow> pystr list" where
  "split_on_u sep [] = [[]]"
| "split_on_u sep (c # cs) =
     (if sep c then [] # split_on_u sep cs
      else (case split_on_u sep cs of
              [] \<Rightarrow> [[c]]
            | piece # pieces \<Rightarrow> (c # piece) # pieces))"

fun split_ws_u :: "pystr \<Rightarrow> pystr list" where
  "split_ws_u [] = []"
| "split_ws_u (c # cs) =
     (if is_space_cp c then split_ws_u cs
      else (case cs of
              [] \<Rightarrow> [[c]]
            | d # ds \<Rightarrow>
                if is_space_cp d then [c] # split_ws_u cs
                else (case split_ws_u cs of
                        [] \<Rightarrow> [[c]]
                      | w # ws \<Rightarrow> (c # w) # ws)))"

fun join_u :: "pystr \<Rightarrow> pystr list \<Rightarrow> pystr" where
  "join_u sep [] = []"
| "join_u sep [p] = p"
| "join_u sep (p # q # ps) = p @ sep @ join_u sep (q # ps)"

fun contains_u :: "pystr \<Rightarrow> pystr \<Rightarrow> bool" where
  "contains_u b [] = (b = [])"
| "contains_u b (c # cs) = (prefix b (c # cs) \<or> contains_u b cs)"

definition is_comma_or_semicolon_cp :: "codepoint \<Rightarrow> bool" where
  "is_comma_or_semicolon_cp n = (n = 44 \<or> n = 59)"

definition kw_list_u :: "pystr \<Rightarrow> pystr list" where
  "kw_list_u keywords_raw =
     map strip_u (filter (\<lambda>k. strip_u k \<noteq> []) (split_on_u is_comma_or_semicolon_cp keywords_raw))"

type_synonym rewriter_u = "nat \<Rightarrow> pystr \<Rightarrow> pystr option"

definition corrected_keyword_u :: "pystr option \<Rightarrow> pystr \<Rightarrow> pystr" where
  "corrected_keyword_u response kw =
     (case response of
        None \<Rightarrow> kw
      | Some text \<Rightarrow> (let new_kw = strip_u text in if new_kw \<noteq> [] then new_kw else kw))"

fun correct_keywords_u :: "rewriter_u \<Rightarrow> pystr list \<Rightarrow> pystr list \<Rightarrow> pystr list \<times> pystr list" where
  "correct_keywords_u rw calls [] = ([], calls)"
| "correct_keywords_u rw calls (kw # kws) =
     (if count_spaces_u kw > 2 then
        (let new_kw = corrected_keyword_u (rw (length calls) kw) kw;
             rest = correct_keywords_u rw (calls @ [kw]) kws
         in (new_kw # fst rest, snd rest))
      else
        (let rest = correct_keywords_u rw calls kws
         in (kw # fst rest, snd rest)))"

definition global_bans_u :: "pystr list" where
  "global_bans_u = map py global_bans"

definition has_ban_u :: "pystr list \<Rightarrow> pystr \<Rightarrow> bool" where
  "has_ban_u banned_from_catalog kw_lower =
     ((\<exists>ban \<in> set global_bans_u. ban \<in> set (split_ws_u kw_lower)) \<or>
      (\<exists>ban \<in> set banned_from_catalog. contains_u ban kw_lower))"

definition final_kw_u :: "pystr \<Rightarrow> pystr" where
  "final_kw_u kw =
     (let parts = split_ws_u (lower_u kw)
      in if length parts > 3 then title_u (join_u [32] (take 3 parts)) else title_u kw)"

fun final_keywords_u :: "pystr list \<Rightarrow> pystr list \<Rightarrow> pystr list" where
  "final_keywords_u banned_from_catalog [] = []"
| "final_keywords_u banned_from_catalog (kw # kws) =
     (let kw_lower = lower_u kw
      in if \<not> has_ban_u banned_from_catalog kw_lower \<and> kw_lower \<notin> set global_bans_u
            \<and> kw_lower \<notin> set banned_from_catalog
         then final_kw_u kw # final_keywords_u banned_from_catalog kws
         else final_keywords_u banned_from_catalog kws)"

definition process_keywords_u :: "rewriter_u \<Rightarrow> pystr list \<Rightarrow> pystr \<Rightarrow> pystr" where
  "process_keywords_u rw banned_from_catalog keywords_raw =
     (if keywords_raw = [] then []
      else join_u [44, 32]
             (final_keywords_u banned_from_catalog
                (fst (correct_keywords_u rw [] (kw_list_u keywords_raw)))))"

definition rewriter_calls_u :: "rewriter_u \<Rightarrow> pystr \<Rightarrow> pystr list" where
  "rewriter_calls_u rw keywords_raw =
     (if keywords_raw = [] then [] else snd (correct_keywords_u rw [] (kw_list_u keywords_raw)))"


section \<open>Facts about characters and strings\<close>

lemma of_char_to_lower: "(of_char (to_lower c) :: nat) = (if is_upper c then of_char c + 32 else of_char c)"
proof (cases "is_upper c")
  case True
  then have "(of_char c :: nat) + 32 < 256" by (simp add: is_upper_def Let_def)
  then show ?thesis using True by (simp add: to_lower_def)
next
  case False
  then show ?thesis by (simp add: to_lower_def)
qed

lemma of_char_to_upper: "(of_char (to_upper c) :: nat) = (if is_lower c then of_char c - 32 else of_char c)"
proof (cases "is_lower c")
  case True
  then have "(of_char c :: nat) - 32 < 256" unfolding is_lower_def Let_def by arith
  then show ?thesis using True by (simp add: to_upper_def)
next
  case False
  then show ?thesis by (simp add: to_upper_def)
qed

lemma is_space_to_lower [simp]: "is_space (to_lower c) = is_space c"
  by (auto simp add: is_space_def of_char_to_lower is_upper_def Let_def)

lemma is_space_to_upper [simp]: "is_space (to_upper c) = is_space c"
  by (auto simp add: is_space_def of_char_to_upper is_lower_def Let_def)

lemma is_cased_to_lower [simp]: "is_cased (to_lower c) = is_cased c"
  by (auto simp add: is_cased_def is_upper_def is_lower_def of_char_to_lower Let_def)

lemma is_cased_to_upper [simp]: "is_cased (to_upper c) = is_cased c"
  by (auto simp add: is_cased_def is_upper_def is_lower_def of_char_to_upper Let_def)

lemma not_is_upper_to_lower [simp]: "\<not> is_upper (to_lower c)"
  by (auto simp add: is_upper_def [of "to_lower c"] of_char_to_lower Let_def is_upper_def [of c])

lemma not_is_lower_to_upper [simp]: "\<not> is_lower (to_upper c)"
  by (auto simp add: is_lower_def [of "to_upper c"] of_char_to_upper Let_def is_lower_def [of c])

lemma to_lower_idem [simp]: "to_lower (to_lower c) = to_lower c"
  by (simp add: to_lower_def [of "to_lower c"])

lemma to_upper_idem [simp]: "to_upper (to_upper c) = to_upper c"
  by (simp add: to_upper_def [of "to_upper c"])

lemma to_lower_to_upper [simp]: "to_lower (to_upper c) = to_lower c"
proof (cases "is_lower c")
  case True
  then have u: "is_upper (to_upper c)"
    by (auto simp add: is_upper_def [of "to_upper c"] of_char_to_upper is_lower_def Let_def)
  have nu: "\<not> is_upper c" using True by (simp add: is_upper_def is_lower_def Let_def)
  have "(of_char c :: nat) - 32 + 32 = of_char c" using True by (simp add: is_lower_def Let_def)
  then have "to_lower (to_upper c) = c"
    using u True by (simp add: to_lower_def [of "to_upper c"] of_char_to_upper)
  then show ?thesis using nu by (simp add: to_lower_def [of c])
next
  case False
  then show ?thesis by (simp add: to_upper_def)
qed

lemma uncased_to_lower: "\<not> is_cased d \<Longrightarrow> (to_lower c = d) = (c = d)"
  by (metis is_cased_to_lower to_lower_def is_cased_def)

lemma uncased_to_upper: "\<not> is_cased d \<Longrightarrow> (to_upper c = d) = (c = d)"
  by (metis is_cased_to_upper to_upper_def is_cased_def)

lemma split_on_not_Nil [simp]: "split_on sep s \<noteq> []"
  by (induction s) (auto split: list.splits)

lemma contains_iff: "contains b s \<longleftrightarrow> (\<exists>p q. s = p @ b @ q)"
proof (induction s)
  case Nil
  then show ?case by auto
next
  case (Cons c cs)
  have "(\<exists>p q. c # cs = p @ b @ q) \<longleftrightarrow> prefix b (c # cs) \<or> (\<exists>p q. cs = p @ b @ q)"
  proof
    assume "\<exists>p q. c # cs = p @ b @ q"
    then obtain p q where pq: "c # cs = p @ b @ q" by blast
    show "prefix b (c # cs) \<or> (\<exists>p q. cs = p @ b @ q)"
    proof (cases p)
      case Nil
      then show ?thesis using pq by (auto simp: prefix_def)
    next
      case (Cons d p')
      then have "cs = p' @ b @ q" using pq by simp
      then show ?thesis by blast
    qed
  next
    assume "prefix b (c # cs) \<or> (\<exists>p q. cs = p @ b @ q)"
    then show "\<exists>p q. c # cs = p @ b @ q"
    proof
      assume "prefix b (c # cs)"
      then obtain q where "c # cs = b @ q" by (auto simp: prefix_def)
      then have "c # cs = [] @ b @ q" by simp
      then show ?thesis by blast
    next
      assume "\<exists>p q. cs = p @ b @ q"
      then obtain p q where "cs = p @ b @ q" by blast
      then have "c # cs = (c # p) @ b @ q" by simp
      then show ?thesis by blast
    qed
  qed
  with Cons show ?case by simp
qed


lemma contains_eq_sublist: "contains b s = sublist b s"
  by (simp add: contains_iff sublist_def) 

lemma contains_refl: "contains s s"
  by (simp add: contains_eq_sublist)

text \<open>Title casing keeps every character in its class.\<close>

lemma title_from_class:
  assumes "\<And>c. Q (to_lower c) = Q c" and "\<And>c. Q (to_upper c) = Q c"
  shows "map Q (title_from p s) = map Q s"
  using assms by (induction s arbitrary: p) auto

lemma length_title_from [simp]: "length (title_from p s) = length s"
  by (induction s arbitrary: p) auto

lemma title_from_eq_Nil [simp]: "(title_from p s = []) = (s = [])"
  by (cases s) auto

lemma lower_title_from [simp]: "lower (title_from p s) = lower s"
  by (induction s arbitrary: p) (auto simp: lower_def)

lemma title_from_idem [simp]: "title_from p (title_from p s) = title_from p s"
  by (induction s arbitrary: p) auto

lemma map_is_space_lower [simp]: "map is_space (lower s) = map is_space s"
  by (simp add: lower_def)

lemma map_is_space_title_from [simp]: "map is_space (title_from p s) = map is_space s"
  by (rule title_from_class) simp_all

lemma not_cased_blank: "\<not> is_cased CHR '' ''"
  by (simp add: is_cased_def is_upper_def is_lower_def)

lemma not_cased_comma: "\<not> is_cased CHR '',''"
  by (simp add: is_cased_def is_upper_def is_lower_def)

lemma not_cased_semicolon: "\<not> is_cased CHR '';''"
  by (simp add: is_cased_def is_upper_def is_lower_def)

lemma is_sep_to_lower [simp]: "is_comma_or_semicolon (to_lower c) = is_comma_or_semicolon c"
  by (simp add: is_comma_or_semicolon_def uncased_to_lower not_cased_comma not_cased_semicolon)

lemma is_sep_to_upper [simp]: "is_comma_or_semicolon (to_upper c) = is_comma_or_semicolon c"
  by (simp add: is_comma_or_semicolon_def uncased_to_upper not_cased_comma not_cased_semicolon)

lemma map_is_sep_title_from [simp]:
  "map is_comma_or_semicolon (title_from p s) = map is_comma_or_semicolon s"
  by (rule title_from_class) simp_all

lemma count_spaces_title_from [simp]: "count_spaces (title_from p s) = count_spaces s"
  by (induction s arbitrary: p)
     (auto simp: count_spaces_def count_char_def uncased_to_lower uncased_to_upper not_cased_blank)

text \<open>The number of words depends on where the whitespace is, and on nothing else.\<close>

lemma length_glue:
  "length (case xs of [] \<Rightarrow> [[c]] | w # ws \<Rightarrow> (c # w) # ws) = (if xs = [] then 1 else length xs)"
  by (cases xs) auto

lemma split_ws_length_cong:
  "map is_space s = map is_space t \<Longrightarrow> length (split_ws s) = length (split_ws t)"
proof (induction s arbitrary: t)
  case Nil
  then show ?case by simp
next
  case (Cons c cs)
  then obtain c' cs' where t: "t = c' # cs'" and c: "is_space c = is_space c'"
    and cs: "map is_space cs = map is_space cs'" by (cases t) auto
  from Cons.IH [OF cs] have ih: "length (split_ws cs) = length (split_ws cs')" .
  then have e: "(split_ws cs = []) = (split_ws cs' = [])" by (metis length_0_conv)
  show ?case
  proof (cases cs)
    case Nil
    then show ?thesis using t c cs by simp
  next
    case (Cons d ds)
    then obtain d' ds' where cs': "cs' = d' # ds'" and d: "is_space d = is_space d'"
      using cs by (cases cs') auto
    show ?thesis
      using ih e c d unfolding t Cons cs'
      by (simp add: length_glue del: split_ws.simps add: split_ws.simps(2) [of c] split_ws.simps(2) [of c'])
  qed
qed

lemma length_split_ws_lower [simp]: "length (split_ws (lower s)) = length (split_ws s)"
  by (rule split_ws_length_cong) simp

lemma length_split_ws_title_from [simp]: "length (split_ws (title_from p s)) = length (split_ws s)"
  by (rule split_ws_length_cong) simp

text \<open>Words are non-empty and free of whitespace; joining words with blanks is undone by splitting.\<close>

lemma is_space_blank: "is_space CHR '' ''"
  by (simp add: is_space_def)

lemma split_ws_space: "is_space c \<Longrightarrow> split_ws (c # cs) = split_ws cs"
  by simp

lemma split_ws_single: "\<not> is_space c \<Longrightarrow> split_ws [c] = [[c]]"
  by simp

lemma split_ws_cut: "\<not> is_space c \<Longrightarrow> is_space d \<Longrightarrow> split_ws (c # d # ds) = [c] # split_ws ds"
  by simp

lemma split_ws_glue:
  "\<not> is_space c \<Longrightarrow> \<not> is_space d \<Longrightarrow>
   split_ws (c # d # ds) = (case split_ws (d # ds) of [] \<Rightarrow> [[c]] | w # ws \<Rightarrow> (c # w) # ws)"
  by (simp del: split_ws.simps add: split_ws.simps(2) [of c])

lemma split_ws_token:
  "w \<noteq> [] \<Longrightarrow> \<forall>c \<in> set w. \<not> is_space c \<Longrightarrow> split_ws w = [w]"
proof (induction w)
  case Nil
  then show ?case by simp
next
  case (Cons c w)
  show ?case
  proof (cases w)
    case Nil
    then show ?thesis using Cons.prems by (simp add: split_ws_single del: split_ws.simps)
  next
    case (Cons d ds)
    have "split_ws (d # ds) = [d # ds]" using Cons.IH Cons.prems Cons by simp
    then show ?thesis using Cons.prems Cons
      by (simp add: split_ws_glue del: split_ws.simps)
  qed
qed

lemma split_ws_token_then_space:
  "w \<noteq> [] \<Longrightarrow> \<forall>c \<in> set w. \<not> is_space c \<Longrightarrow> is_space d \<Longrightarrow>
   split_ws (w @ d # rest) = w # split_ws rest"
proof (induction w)
  case Nil
  then show ?case by simp
next
  case (Cons c w)
  show ?case
  proof (cases w)
    case Nil
    then show ?thesis using Cons.prems by (simp add: split_ws_cut del: split_ws.simps)
  next
    case (Cons e es)
    have "split_ws ((e # es) @ d # rest) = (e # es) # split_ws rest"
      using Cons.IH Cons.prems Cons by simp
    then show ?thesis using Cons.prems Cons
      by (simp add: split_ws_glue del: split_ws.simps)
  qed
qed

lemma split_ws_tokens:
  "w \<in> set (split_ws s) \<Longrightarrow> w \<noteq> [] \<and> (\<forall>c \<in> set w. \<not> is_space c)"
proof (induction s arbitrary: w)
  case Nil
  then show ?case by simp
next
  case (Cons c cs)
  show ?case
  proof (cases "is_space c")
    case True
    then show ?thesis using Cons by (simp add: split_ws_space del: split_ws.simps)
  next
    case False
    show ?thesis
    proof (cases cs)
      case Nil
      then show ?thesis using Cons.prems False by (simp add: split_ws_single del: split_ws.simps)
    next
      case cs: (Cons d ds)
      show ?thesis
      proof (cases "is_space d")
        case True
        then have "split_ws (c # cs) = [c] # split_ws cs"
          using False cs by (simp add: split_ws_cut split_ws_space del: split_ws.simps)
        then show ?thesis using Cons.prems Cons.IH False by auto
      next
        case nd: False
        show ?thesis
        proof (cases "split_ws cs")
          case Nil
          then have "split_ws (c # cs) = [[c]]"
            using False nd cs by (simp add: split_ws_glue del: split_ws.simps)
          then show ?thesis using Cons.prems False by simp
        next
          case sp: (Cons v vs)
          then have "split_ws (c # cs) = (c # v) # vs"
            using False nd cs by (simp add: split_ws_glue del: split_ws.simps)
          moreover have "v \<noteq> [] \<and> (\<forall>c \<in> set v. \<not> is_space c)" using Cons.IH [of v] sp by simp
          moreover have "\<forall>u \<in> set vs. u \<noteq> [] \<and> (\<forall>c \<in> set u. \<not> is_space c)"
            using Cons.IH sp by (metis list.set_intros(2))
          ultimately show ?thesis using Cons.prems False by auto
        qed
      qed
    qed
  qed
qed

lemma split_ws_join_tokens:
  "\<forall>w \<in> set ws. w \<noteq> [] \<and> (\<forall>c \<in> set w. \<not> is_space c) \<Longrightarrow> split_ws (join '' '' ws) = ws"
proof (induction ws)
  case Nil
  then show ?case by simp
next
  case (Cons p ps)
  show ?case
  proof (cases ps)
    case Nil
    then show ?thesis using Cons.prems by (simp add: split_ws_token)
  next
    case (Cons q qs)
    have "split_ws (p @ CHR '' '' # join '' '' (q # qs)) = p # split_ws (join '' '' (q # qs))"
      using Cons.prems by (intro split_ws_token_then_space) (simp_all add: is_space_blank)
    then show ?thesis using Cons.IH Cons.prems Cons by simp
  qed
qed


text \<open>Stripping.\<close>

lemma strip_Nil [simp]: "strip [] = []"
  by (simp add: strip_def)

lemma strip_space_Cons: "is_space d \<Longrightarrow> strip (d # s) = strip s"
  by (simp add: strip_def)

lemma last_dropWhile: "dropWhile P xs \<noteq> [] \<Longrightarrow> last (dropWhile P xs) = last xs"
  by (induction xs) (auto split: if_splits)

lemma strip_fixed: "s \<noteq> [] \<Longrightarrow> \<not> is_space (hd s) \<Longrightarrow> \<not> is_space (last s) \<Longrightarrow> strip s = s"
proof -
  assume s: "s \<noteq> []" and h: "\<not> is_space (hd s)" and l: "\<not> is_space (last s)"
  have 1: "dropWhile is_space s = s" using s h by (cases s) auto
  obtain a as where r: "rev s = a # as" using s by (cases "rev s") auto
  have "hd (rev s) = last s" using s by (simp add: hd_rev)
  then have "\<not> is_space a" using r l by simp
  then have 2: "dropWhile is_space (rev s) = rev s" using r by simp
  show ?thesis by (simp add: strip_def 1 2)
qed

lemma strip_ends:
  assumes "strip s \<noteq> []"
  shows "\<not> is_space (hd (strip s)) \<and> \<not> is_space (last (strip s))"
proof -
  let ?t = "dropWhile is_space s"
  let ?u = "dropWhile is_space (rev ?t)"
  have su: "strip s = rev ?u" by (simp add: strip_def)
  then have u: "?u \<noteq> []" using assms by simp
  have t: "?t \<noteq> []"
  proof
    assume "?t = []"
    then have "?u = []" by (metis dropWhile.simps(1) rev.simps(1))
    with u show False by simp
  qed
  have "\<not> is_space (hd ?u)" using u by (rule hd_dropWhile)
  then have a: "\<not> is_space (last (strip s))" using u by (simp add: su last_rev)
  have "last ?u = last (rev ?t)" using u by (rule last_dropWhile)
  also have "\<dots> = hd ?t" using t by (simp add: last_rev)
  finally have "hd (strip s) = hd ?t" using u by (simp add: su hd_rev)
  moreover have "\<not> is_space (hd ?t)" using t by (rule hd_dropWhile)
  ultimately show ?thesis using a by simp
qed

lemma strip_idem [simp]: "strip (strip s) = strip s"
proof (cases "strip s = []")
  case True
  then show ?thesis by simp
next
  case False
  then show ?thesis using strip_ends [OF False] by (intro strip_fixed) simp_all
qed

lemma set_strip: "c \<in> set (strip s) \<Longrightarrow> c \<in> set s"
  by (auto simp: strip_def dest!: set_dropWhileD)

lemma strip_title_from:
  assumes "strip s = s"
  shows "strip (title_from p s) = title_from p s"
proof (cases "s = []")
  case True
  then show ?thesis by simp
next
  case False
  then have e: "\<not> is_space (hd s) \<and> \<not> is_space (last s)"
    using strip_ends [of s] assms by simp
  have m: "map is_space (title_from p s) = map is_space s" by simp
  have n: "title_from p s \<noteq> []" using False by simp
  have "is_space (hd (title_from p s)) = hd (map is_space (title_from p s))"
    using n by (simp add: hd_map del: map_is_space_title_from)
  then have h: "is_space (hd (title_from p s)) = is_space (hd s)"
    using False by (simp add: hd_map)
  have "is_space (last (title_from p s)) = last (map is_space (title_from p s))"
    using n by (simp add: last_map del: map_is_space_title_from)
  then have l: "is_space (last (title_from p s)) = is_space (last s)"
    using False by (simp add: last_map)
  show ?thesis using n e h l by (intro strip_fixed) simp_all
qed

lemma no_sep_title_from:
  "(\<forall>c \<in> set (title_from p s). \<not> is_comma_or_semicolon c) = (\<forall>c \<in> set s. \<not> is_comma_or_semicolon c)"
  by (induction s arbitrary: p) auto

text \<open>Cutting at separators, and cutting a joined list of pieces again.\<close>

lemma split_on_pieces: "p \<in> set (split_on sep s) \<Longrightarrow> \<forall>c \<in> set p. \<not> sep c"
proof (induction s arbitrary: p)
  case Nil
  then show ?case by simp
next
  case (Cons c cs)
  obtain piece pieces where sp: "split_on sep cs = piece # pieces"
    by (cases "split_on sep cs") auto
  show ?case
  proof (cases "sep c")
    case True
    then show ?thesis using Cons by auto
  next
    case False
    then have "p = c # piece \<or> p \<in> set pieces" using Cons.prems sp by simp
    moreover have "\<forall>c \<in> set piece. \<not> sep c" using Cons.IH [of piece] sp by simp
    moreover have "\<forall>q \<in> set pieces. \<forall>c \<in> set q. \<not> sep c"
      using Cons.IH sp by (metis list.set_intros(2))
    ultimately show ?thesis using False by auto
  qed
qed

lemma split_on_no_sep: "\<forall>c \<in> set w. \<not> sep c \<Longrightarrow> split_on sep w = [w]"
  by (induction w) auto

lemma split_on_append:
  "\<forall>c \<in> set w. \<not> sep c \<Longrightarrow> sep d \<Longrightarrow> split_on sep (w @ d # rest) = w # split_on sep rest"
  by (induction w) auto

lemma split_on_join:
  assumes "fs \<noteq> []" and "\<forall>f \<in> set fs. \<forall>c \<in> set f. \<not> is_comma_or_semicolon c"
  shows "split_on is_comma_or_semicolon (join '', '' fs) = hd fs # map ((#) CHR '' '') (tl fs)"
  using assms
proof (induction fs)
  case Nil
  then show ?case by simp
next
  case (Cons f fs)
  show ?case
  proof (cases fs)
    case Nil
    then show ?thesis using Cons.prems by (simp add: split_on_no_sep)
  next
    case (Cons g gs)
    have ih: "split_on is_comma_or_semicolon (join '', '' (g # gs)) = g # map ((#) CHR '' '') gs"
      using Cons.IH Cons.prems Cons by simp
    have "join '', '' (f # g # gs) = f @ CHR '','' # (CHR '' '' # join '', '' (g # gs))"
      by simp
    moreover have "split_on is_comma_or_semicolon (f @ CHR '','' # (CHR '' '' # join '', '' (g # gs)))
        = f # split_on is_comma_or_semicolon (CHR '' '' # join '', '' (g # gs))"
      using Cons.prems by (intro split_on_append) (simp_all add: is_comma_or_semicolon_def)
    moreover have "split_on is_comma_or_semicolon (CHR '' '' # join '', '' (g # gs))
        = (CHR '' '' # g) # map ((#) CHR '' '') gs"
      using ih by (simp add: is_comma_or_semicolon_def del: join.simps)
    ultimately show ?thesis using Cons by (simp del: join.simps split_on.simps)
  qed
qed

text \<open>The phrases of a raw keyword string are stripped, non-empty and free of separators.\<close>

lemma kw_list_Nil [simp]: "kw_list [] = []"
  by (simp add: kw_list_def)

lemma kw_list_props:
  assumes "kw \<in> set (kw_list raw)"
  shows "kw \<noteq> [] \<and> strip kw = kw \<and> (\<forall>c \<in> set kw. \<not> is_comma_or_semicolon c)"
proof -
  from assms obtain k where k: "k \<in> set (split_on is_comma_or_semicolon raw)"
    and n: "strip k \<noteq> []" and kw: "kw = strip k"
    by (auto simp: kw_list_def)
  have "\<forall>c \<in> set k. \<not> is_comma_or_semicolon c" using k by (rule split_on_pieces)
  then have "\<forall>c \<in> set kw. \<not> is_comma_or_semicolon c" using kw set_strip by blast
  then show ?thesis using n kw by simp
qed

lemma kw_list_join:
  assumes "\<forall>f \<in> set fs. f \<noteq> [] \<and> strip f = f \<and> (\<forall>c \<in> set f. \<not> is_comma_or_semicolon c)"
  shows "kw_list (join '', '' fs) = fs"
proof (cases "fs = []")
  case True
  then show ?thesis by simp
next
  case False
  then obtain f gs where fs: "fs = f # gs" by (cases fs) auto
  have sp: "split_on is_comma_or_semicolon (join '', '' fs) = f # map ((#) CHR '' '') gs"
    using split_on_join [of fs] assms False fs by simp
  have g: "\<forall>g \<in> set gs. strip (CHR '' '' # g) = g \<and> g \<noteq> []"
    using assms fs by (simp add: strip_space_Cons is_space_blank)
  have "filter (\<lambda>k. strip k \<noteq> []) (map ((#) CHR '' '') gs) = map ((#) CHR '' '') gs"
    using g by (auto simp: filter_id_conv)
  moreover have "map strip (map ((#) CHR '' '') gs) = gs"
    using g by (simp add: map_idI)
  ultimately show ?thesis using assms fs sp by (simp add: kw_list_def)
qed

text \<open>The two loops of \<open>process_keywords\<close>.\<close>

lemma correct_keywords_calls:
  "snd (correct_keywords rw calls kws) = calls @ filter (\<lambda>kw. 2 < count_spaces kw) kws"
  by (induction kws arbitrary: calls) (simp_all add: Let_def)

lemma correct_keywords_length [simp]: "length (fst (correct_keywords rw calls kws)) = length kws"
  by (induction kws arbitrary: calls) (simp_all add: Let_def)

lemma correct_keywords_nth:
  "i < length kws \<Longrightarrow>
   fst (correct_keywords rw calls kws) ! i =
     (if 2 < count_spaces (kws ! i)
      then corrected_keyword
             (rw (length calls + length (filter (\<lambda>kw. 2 < count_spaces kw) (take i kws))) (kws ! i))
             (kws ! i)
      else kws ! i)"
proof (induction kws arbitrary: calls i)
  case Nil
  then show ?case by simp
next
  case (Cons kw kws)
  show ?case
  proof (cases i)
    case 0
    then show ?thesis by (simp add: Let_def)
  next
    case (Suc j)
    then have j: "j < length kws" using Cons.prems by simp
    show ?thesis using Cons.IH [OF j] Suc by (simp add: Let_def)
  qed
qed

lemma correct_keywords_short:
  "\<forall>kw \<in> set kws. count_spaces kw \<le> 2 \<Longrightarrow> correct_keywords rw calls kws = (kws, calls)"
  by (induction kws arbitrary: calls) (simp_all add: Let_def)

lemma global_ban_is_own_word: "b \<in> set global_bans \<Longrightarrow> b \<in> set (split_ws b)"
proof -
  have "split_ws ''epic'' = [''epic'']" "split_ws ''huge'' = [''huge'']"
    "split_ws ''massive'' = [''massive'']" "split_ws ''awesome'' = [''awesome'']"
    "split_ws ''badass'' = [''badass'']"
    by code_simp+
  then show "b \<in> set global_bans \<Longrightarrow> b \<in> set (split_ws b)"
    by (auto simp: global_bans_def)
qed

lemma final_keywords_filter:
  "final_keywords cat kws = map final_kw (filter (\<lambda>kw. \<not> has_ban cat (lower kw)) kws)"
proof (induction kws)
  case Nil
  then show ?case by simp
next
  case (Cons kw kws)
  have "lower kw \<in> set global_bans \<Longrightarrow> has_ban cat (lower kw)"
    using global_ban_is_own_word [of "lower kw"] by (auto simp: has_ban_def)
  moreover have "lower kw \<in> set cat \<Longrightarrow> has_ban cat (lower kw)"
    using contains_refl [of "lower kw"] by (auto simp: has_ban_def)
  ultimately show ?case using Cons by (auto simp: Let_def)
qed


section \<open>The validator's verdict\<close>

text \<open>
  Claim C4. The flag \<open>passed\<close> returned by \<open>validate_data\<close> is true exactly when the
  returned list of errors is empty, for every input; and when the track sequence is empty
  (the key \<open>tracks\<close> absent, or its list empty) the list holds the message
  ``No track data found to export'' and the flag is false.
\<close>

theorem validate_data_passed_iff_no_errors:
  "(fst (validate_data cat data) \<longleftrightarrow> snd (validate_data cat data) = []) \<and>
   (get_or (tracks data) [] = [] \<longrightarrow>
      error_message NoTrackData \<in> set (snd (validate_data cat data)) \<and>
      \<not> fst (validate_data cat data))"
  by (auto simp add: validate_data_def validate_errors_def Let_def)

theorem validate_data_passed_iff_no_errors_witness:
  "get_or (tracks \<lparr>tracks = Some [], album_description = Some ''Quiet piano'',
       album_name = Some ''Nocturne'', cover_art = None, mailchimp_intro = None\<rparr>) [] = [] \<and>
   ''ERROR: No track data found to export.'' \<in> set (snd (validate_data [''forbidden'']
       \<lparr>tracks = Some [], album_description = Some ''Quiet piano'',
        album_name = Some ''Nocturne'', cover_art = None, mailchimp_intro = None\<rparr>)) \<and>
   \<not> fst (validate_data [''forbidden'']
       \<lparr>tracks = Some [], album_description = Some ''Quiet piano'',
        album_name = Some ''Nocturne'', cover_art = None, mailchimp_intro = None\<rparr>)"
proof -
  let ?d = "\<lparr>tracks = Some [], album_description = Some ''Quiet piano'',
        album_name = Some ''Nocturne'', cover_art = None, mailchimp_intro = None\<rparr>"
  have h: "get_or (tracks ?d) [] = []" by (simp add: get_or_def)
  have m: "error_message NoTrackData = ''ERROR: No track data found to export.''" by simp
  from validate_data_passed_iff_no_errors [of "[''forbidden'']" ?d] h
  have "error_message NoTrackData \<in> set (snd (validate_data [''forbidden''] ?d)) \<and>
        \<not> fst (validate_data [''forbidden''] ?d)" by blast
  with h m show ?thesis by simp
qed


section \<open>The archive without tracks\<close>

text \<open>
  Claim C9. When the track sequence is absent or empty, \<open>compile_final_package\<close> raises
  nothing and writes four entries only, the text documents 03 to 06 in this order, each
  holding its field or the empty text; no CSV entry is written.
\<close>

theorem compile_final_package_without_tracks:
  assumes "tracks data = None \<or> tracks data = Some []"
  shows "compile_final_package data =
     Inr [(''03 Album Description/Album_Description.txt'', Txt (get_or (album_description data) [])),
          (''04 Album Name/Album_Name.txt'', Txt (get_or (album_name data) [])),
          (''05 Album Cover Art/MidJourney_Prompts.txt'', Txt (get_or (cover_art data) [])),
          (''06 MailChimp Intro/MailChimp_Copy.txt'', Txt (get_or (mailchimp_intro data) []))]"
  using assms by (auto simp add: compile_final_package_def text_entries_def)

theorem compile_final_package_without_tracks_witness:
  "compile_final_package \<lparr>tracks = None, album_description = Some ''Quiet piano'',
       album_name = None, cover_art = Some ''fog --v 7.0'', mailchimp_intro = None\<rparr> =
     Inr [(''03 Album Description/Album_Description.txt'', Txt ''Quiet piano''),
          (''04 Album Name/Album_Name.txt'', Txt []),
          (''05 Album Cover Art/MidJourney_Prompts.txt'', Txt ''fog --v 7.0''),
          (''06 MailChimp Intro/MailChimp_Copy.txt'', Txt [])]"
  using compile_final_package_without_tracks [of "\<lparr>tracks = None, album_description = Some ''Quiet piano'',
       album_name = None, cover_art = Some ''fog --v 7.0'', mailchimp_intro = None\<rparr>"]
  by (simp add: get_or_def)


section \<open>A normalised keyword that the validator rejects\<close>



section \<open>The Antigravity check and whitespace other than the blank\<close>

text \<open>
  Claim C5. The validator takes the first piece of the description cut at blanks only
  (\<open>desc.split(' ')[0]\<close>), so an article followed by a TAB or a line feed is not found:
  the description \<open>The<TAB>storm rises\<close>, whose first whitespace-delimited token is
  \<open>The\<close>, yields no Antigravity error, nor does \<open>An<LF>echo fades\<close>, while
  \<open>The storm rises\<close> does.
\<close>

theorem description_article_before_tab_not_flagged:
  "description_errors ''Night Drive'' (''The'' @ [CHR 0x09] @ ''storm rises'') = [] \<and>
   hd (split_ws (''The'' @ [CHR 0x09] @ ''storm rises'')) = ''The'' \<and>
   description_errors ''Night Drive'' (''An'' @ [CHR 0x0A] @ ''echo fades'') = [] \<and>
   description_errors ''Night Drive'' ''The storm rises'' = [AntigravityProtocol ''Night Drive'' ''the'']"
  by code_simp


section \<open>Ban filtering in normalisation\<close>

text \<open>
  Claim C1. Of the phrases that leave the rewriting step, the second loop keeps exactly
  those that carry no ban, in their order, and hands each kept phrase to the casing step;
  a phrase is dropped as a whole exactly when one of the whitespace-delimited words of
  its lowercase form is an entry of the global ban list, or an entry of the catalog ban
  list occurs in its lowercase form as a contiguous substring (\<^const>\<open>sublist\<close>). The
  two further tests of the source, of the whole lowercase phrase against either list,
  never decide. So \<open>epic build\<close> is dropped although \<open>build\<close> is not banned.
\<close>

theorem phrase_dropped_iff_banned:
  "final_keywords cat kws =
     map final_kw
       (filter (\<lambda>kw. \<not> ((\<exists>w \<in> set (split_ws (lower kw)). w \<in> set global_bans) \<or>
                          (\<exists>ban \<in> set cat. sublist ban (lower kw)))) kws)"
proof -
  have "\<And>kw. has_ban cat (lower kw) =
      ((\<exists>w \<in> set (split_ws (lower kw)). w \<in> set global_bans) \<or>
       (\<exists>ban \<in> set cat. sublist ban (lower kw)))"
    by (auto simp: has_ban_def contains_eq_sublist)
  then show ?thesis by (simp add: final_keywords_filter)
qed

theorem phrase_dropped_iff_banned_witness:
  "final_keywords [''forbidden''] [''dark thriller'', ''epic build'', ''Forbidden word'', ''keep this'']
     = [''Dark Thriller'', ''Keep This''] \<and>
   process_keywords (\<lambda>n kw. None) [] ''dark thriller, epic build'' = ''Dark Thriller''"
proof -
  have "map final_kw
       (filter (\<lambda>kw. \<not> ((\<exists>w \<in> set (split_ws (lower kw)). w \<in> set global_bans) \<or>
                          (\<exists>ban \<in> set [''forbidden'']. sublist ban (lower kw))))
          [''dark thriller'', ''epic build'', ''Forbidden word'', ''keep this''])
     = [''Dark Thriller'', ''Keep This'']"
    by code_simp
  moreover have "process_keywords (\<lambda>n kw. None) [] ''dark thriller, epic build'' = ''Dark Thriller''"
    by code_simp
  ultimately show ?thesis
    using phrase_dropped_iff_banned [of "[''forbidden'']"
        "[''dark thriller'', ''epic build'', ''Forbidden word'', ''keep this'']"]
    by simp
qed


section \<open>Ban checks in validation\<close>









section \<open>Rewriting and truncation of long phrases\<close>

lemma final_kw_words: "length (split_ws (final_kw kw)) \<le> 3"
proof (cases "3 < length (split_ws (lower kw))")
  case True
  have "\<forall>w \<in> set (take 3 (split_ws (lower kw))). w \<noteq> [] \<and> (\<forall>c \<in> set w. \<not> is_space c)"
    using split_ws_tokens by (meson in_set_takeD)
  then have "split_ws (join '' '' (take 3 (split_ws (lower kw)))) = take 3 (split_ws (lower kw))"
    by (rule split_ws_join_tokens)
  then show ?thesis using True by (simp add: final_kw_def Let_def title_def)
next
  case False
  then show ?thesis by (simp add: final_kw_def Let_def title_def)
qed

text \<open>
  Claim C6. In one run of \<open>process_keywords\<close> the model is called once for each phrase
  with more than two blanks and for no other phrase, in phrase order, so never twice for
  one phrase; the corrected list has one entry per phrase: the phrase itself when it has
  at most two blanks, and otherwise what its single call gives, which is the phrase
  itself when the call fails. Every phrase that survives the ban check is then
  title-cased, after being cut to its first three words (joined by single blanks) when
  its lowercase form has more than three words; so no phrase of the output has more than
  three words.
\<close>

theorem rewriter_called_for_more_than_two_blanks:
  "rewriter_calls rw raw = filter (\<lambda>kw. 2 < count_spaces kw) (kw_list raw) \<and>
   fst (correct_keywords rw [] kws) =
     map (\<lambda>i. if 2 < count_spaces (kws ! i)
               then corrected_keyword
                      (rw (length (filter (\<lambda>kw. 2 < count_spaces kw) (take i kws))) (kws ! i))
                      (kws ! i)
               else kws ! i) [0..<length kws] \<and>
   corrected_keyword None kw = kw \<and>
   final_keywords cat kws = map final_kw (filter (\<lambda>kw. \<not> has_ban cat (lower kw)) kws) \<and>
   final_kw kw =
     title (if 3 < length (split_ws (lower kw)) then join '' '' (take 3 (split_ws (lower kw)))
            else kw) \<and>
   length (split_ws (final_kw kw)) \<le> 3"
proof (intro conjI)
  show "rewriter_calls rw raw = filter (\<lambda>kw. 2 < count_spaces kw) (kw_list raw)"
    by (simp add: rewriter_calls_def correct_keywords_calls)
  show "fst (correct_keywords rw [] kws) =
     map (\<lambda>i. if 2 < count_spaces (kws ! i)
               then corrected_keyword
                      (rw (length (filter (\<lambda>kw. 2 < count_spaces kw) (take i kws))) (kws ! i))
                      (kws ! i)
               else kws ! i) [0..<length kws]"
    by (rule nth_equalityI) (simp_all add: correct_keywords_nth)
  show "corrected_keyword None kw = kw"
    by (simp add: corrected_keyword_def)
  show "final_keywords cat kws = map final_kw (filter (\<lambda>kw. \<not> has_ban cat (lower kw)) kws)"
    by (rule final_keywords_filter)
  show "final_kw kw =
     title (if 3 < length (split_ws (lower kw)) then join '' '' (take 3 (split_ws (lower kw)))
            else kw)"
    by (simp add: final_kw_def Let_def)
  show "length (split_ws (final_kw kw)) \<le> 3"
    by (rule final_kw_words)
qed

theorem rewriter_called_for_more_than_two_blanks_witness:
  "rewriter_calls (\<lambda>n kw. None) ''dark thriller, end of the world today, night''
     = [''end of the world today''] \<and>
   process_keywords (\<lambda>n kw. None) [] ''dark thriller, end of the world today, night''
     = ''Dark Thriller, End Of The, Night'' \<and>
   process_keywords (\<lambda>n kw. Some ''End Of World'') [] ''dark thriller, end of the world today''
     = ''Dark Thriller, End Of World''"
proof -
  have "filter (\<lambda>kw. 2 < count_spaces kw) (kw_list ''dark thriller, end of the world today, night'')
      = [''end of the world today'']"
    by code_simp
  then have "rewriter_calls (\<lambda>n kw. None) ''dark thriller, end of the world today, night''
     = [''end of the world today'']"
    using rewriter_called_for_more_than_two_blanks
      [of "\<lambda>n kw. None" "''dark thriller, end of the world today, night''"]
    by simp
  moreover have "process_keywords (\<lambda>n kw. None) [] ''dark thriller, end of the world today, night''
     = ''Dark Thriller, End Of The, Night''"
    by code_simp
  moreover have "process_keywords (\<lambda>n kw. Some ''End Of World'') [] ''dark thriller, end of the world today''
     = ''Dark Thriller, End Of World''"
    by code_simp
  ultimately show ?thesis by simp
qed


section \<open>Phrases that need no correction\<close>

lemma final_kw_short: "length (split_ws kw) \<le> 3 \<Longrightarrow> final_kw kw = title kw"
  by (simp add: final_kw_def Let_def)

lemma process_keywords_short:
  assumes "\<forall>kw \<in> set (kw_list raw). count_spaces kw \<le> 2 \<and> length (split_ws kw) \<le> 3"
  shows "process_keywords rw cat raw =
    join '', '' (map title (filter (\<lambda>kw. \<not> has_ban cat (lower kw)) (kw_list raw)))"
proof (cases "raw = []")
  case True
  then show ?thesis by (simp add: process_keywords_def)
next
  case False
  have c: "correct_keywords rw [] (kw_list raw) = (kw_list raw, [])"
    using assms by (intro correct_keywords_short) simp
  have m: "map final_kw (filter (\<lambda>kw. \<not> has_ban cat (lower kw)) (kw_list raw)) =
        map title (filter (\<lambda>kw. \<not> has_ban cat (lower kw)) (kw_list raw))"
    using assms by (intro map_cong refl final_kw_short) simp
  have "process_keywords rw cat raw =
      join '', '' (map final_kw (filter (\<lambda>kw. \<not> has_ban cat (lower kw)) (kw_list raw)))"
    using False c by (simp add: process_keywords_def final_keywords_filter)
  then show ?thesis by (simp only: m)
qed

lemma rewriter_calls_short:
  assumes "\<forall>kw \<in> set (kw_list raw). count_spaces kw \<le> 2"
  shows "rewriter_calls rw raw = []"
proof -
  have "filter (\<lambda>kw. 2 < count_spaces kw) (kw_list raw) = []"
    using assms by (auto simp: filter_empty_conv)
  then show ?thesis by (simp add: rewriter_calls_def correct_keywords_calls)
qed

lemma kw_list_of_normalised:
  "kw_list (join '', '' (map title (filter P (kw_list raw)))) = map title (filter P (kw_list raw))"
proof (rule kw_list_join, rule ballI)
  fix f assume "f \<in> set (map title (filter P (kw_list raw)))"
  then obtain kw where kw: "kw \<in> set (kw_list raw)" and f: "f = title kw" by auto
  from kw_list_props [OF kw]
  have "kw \<noteq> []" and "strip kw = kw" and "\<forall>c \<in> set kw. \<not> is_comma_or_semicolon c"
    by simp_all
  then show "f \<noteq> [] \<and> strip f = f \<and> (\<forall>c \<in> set f. \<not> is_comma_or_semicolon c)"
    unfolding f title_def by (simp add: strip_title_from no_sep_title_from)
qed

text \<open>
  Claim C7, as amended. When every phrase of the raw string (cut at commas and
  semicolons, stripped, empty pieces dropped) has at most two blanks, at most three
  words, no word that is a global ban entry and no catalog ban entry as a substring, the
  result is the title-cased phrases joined by a comma and a blank: same phrases, same
  order, same count, equal phrases kept apart. The empty input gives the empty output.
  The bound on blanks is needed: a phrase of at most three words with more than two
  blanks goes to the model, and the answer takes its place.
\<close>

theorem process_keywords_clean_phrases:
  assumes "\<forall>kw \<in> set (kw_list raw).
      count_spaces kw \<le> 2 \<and> length (split_ws kw) \<le> 3 \<and>
      \<not> (\<exists>w \<in> set (split_ws (lower kw)). w \<in> set global_bans) \<and>
      \<not> (\<exists>ban \<in> set cat. sublist ban (lower kw))"
  shows "process_keywords rw cat raw = join '', '' (map title (kw_list raw)) \<and>
         process_keywords rw cat [] = []"
proof -
  have "\<forall>kw \<in> set (kw_list raw). \<not> has_ban cat (lower kw)"
    using assms by (auto simp: has_ban_def contains_eq_sublist)
  then have "filter (\<lambda>kw. \<not> has_ban cat (lower kw)) (kw_list raw) = kw_list raw"
    by (simp add: filter_id_conv)
  moreover have "\<forall>kw \<in> set (kw_list raw). count_spaces kw \<le> 2 \<and> length (split_ws kw) \<le> 3"
    using assms by simp
  ultimately show ?thesis
    using process_keywords_short [of raw rw cat] by (simp add: process_keywords_def)
qed

theorem process_keywords_clean_phrases_witness:
  "kw_list ''dark thriller; Chase Scene,, dark THRILLER''
     = [''dark thriller'', ''Chase Scene'', ''dark THRILLER''] \<and>
   process_keywords (\<lambda>n kw. None) [''forbidden''] ''dark thriller; Chase Scene,, dark THRILLER''
     = ''Dark Thriller, Chase Scene, Dark Thriller''"
proof -
  have h: "\<forall>kw \<in> set (kw_list ''dark thriller; Chase Scene,, dark THRILLER'').
      count_spaces kw \<le> 2 \<and> length (split_ws kw) \<le> 3 \<and>
      \<not> (\<exists>w \<in> set (split_ws (lower kw)). w \<in> set global_bans) \<and>
      \<not> (\<exists>ban \<in> set [''forbidden'']. sublist ban (lower kw))"
    by code_simp
  have k: "kw_list ''dark thriller; Chase Scene,, dark THRILLER''
     = [''dark thriller'', ''Chase Scene'', ''dark THRILLER'']"
    by code_simp
  have j: "join '', '' (map title [''dark thriller'', ''Chase Scene'', ''dark THRILLER''])
     = ''Dark Thriller, Chase Scene, Dark Thriller''"
    by code_simp
  from process_keywords_clean_phrases [OF h, of "\<lambda>n kw. None"] k j
  show ?thesis by simp
qed

theorem process_keywords_clean_phrases_counterexample:
  "kw_list ''dark  moody  tense'' = [''dark  moody  tense''] \<and>
   length (split_ws ''dark  moody  tense'') = 3 \<and>
   \<not> has_ban [] (lower ''dark  moody  tense'') \<and>
   process_keywords (\<lambda>n kw. Some ''dark moody tense'') [] ''dark  moody  tense''
     = ''Dark Moody Tense'' \<and>
   join '', '' (map title (kw_list ''dark  moody  tense'')) = ''Dark  Moody  Tense'' \<and>
   process_keywords (\<lambda>n kw. Some ''dark moody tense'') [] ''dark  moody  tense''
     \<noteq> join '', '' (map title (kw_list ''dark  moody  tense''))"
  by code_simp


section \<open>Idempotence of normalisation\<close>

text \<open>
  On ASCII text, when no phrase has more than three words or more than two blanks,
  normalising the result again changes nothing, and the model is called in neither run.
\<close>

lemma process_keywords_idempotent:
  assumes "\<forall>kw \<in> set (kw_list raw). count_spaces kw \<le> 2 \<and> length (split_ws kw) \<le> 3"
  shows "rewriter_calls rw raw = [] \<and>
         rewriter_calls rw' (process_keywords rw cat raw) = [] \<and>
         process_keywords rw' cat (process_keywords rw cat raw) = process_keywords rw cat raw"
proof -
  let ?ok = "\<lambda>kw. \<not> has_ban cat (lower kw)"
  let ?fs = "map title (filter ?ok (kw_list raw))"
  have out: "process_keywords rw cat raw = join '', '' ?fs"
    using assms by (rule process_keywords_short)
  have kl: "kw_list (join '', '' ?fs) = ?fs" by (rule kw_list_of_normalised)
  have short: "\<forall>f \<in> set (kw_list (join '', '' ?fs)). count_spaces f \<le> 2 \<and> length (split_ws f) \<le> 3"
    unfolding kl using assms by (auto simp: title_def)
  have ff: "filter ?ok ?fs = ?fs"
    by (auto simp: filter_id_conv title_def)
  have tt: "map title ?fs = ?fs"
    by (simp add: title_def)
  have "process_keywords rw' cat (join '', '' ?fs) =
      join '', '' (map title (filter ?ok (kw_list (join '', '' ?fs))))"
    using short by (rule process_keywords_short)
  also have "\<dots> = join '', '' (map title (filter ?ok ?fs))" by (simp only: kl)
  also have "\<dots> = join '', '' (map title ?fs)" by (simp only: ff)
  also have "\<dots> = join '', '' ?fs" by (simp only: tt)
  finally have "process_keywords rw' cat (join '', '' ?fs) = join '', '' ?fs" .
  moreover have "rewriter_calls rw raw = []"
    using assms by (intro rewriter_calls_short) simp
  moreover have "rewriter_calls rw' (join '', '' ?fs) = []"
    using short by (intro rewriter_calls_short) simp
  ultimately show ?thesis using out by simp
qed

text \<open>
  The bound on words is used. Four words separated by TABs have no blank, so the model
  is not called; the phrase is cut to three words joined by blanks, and a catalog entry
  with a blank that did not occur in the input can occur in the result, which the second
  run then drops.
\<close>

lemma truncation_can_meet_catalog_ban:
  "rewriter_calls (\<lambda>n kw. None) (''dark'' @ [CHR 0x09] @ ''city'' @ [CHR 0x09] @ ''at'' @ [CHR 0x09] @ ''night'') = [] \<and>
   process_keywords (\<lambda>n kw. None) [''dark city'']
     (''dark'' @ [CHR 0x09] @ ''city'' @ [CHR 0x09] @ ''at'' @ [CHR 0x09] @ ''night'') = ''Dark City At'' \<and>
   process_keywords (\<lambda>n kw. None) [''dark city''] ''Dark City At'' = []"
  by code_simp

text \<open>
  On ASCII text the normalisation on code points is the normalisation above: each
  operation on the code points of an ASCII string gives the code points of what the
  operation on the string gives. A catalog entry matches ASCII text only when it is
  itself made of code points below 256, and then as the string of these.
\<close>

lemma int_of_char: "(of_char c :: int) = int (of_char c)"
  by (simp add: of_nat_of_char)

lemma int_of_char_bounds: "0 \<le> (of_char c :: int) \<and> (of_char c :: int) < 256"
  unfolding int_of_char using nat_of_char_less_256 [of c] by simp

lemma is_upper_int: "is_upper c = (65 \<le> (of_char c :: int) \<and> (of_char c :: int) \<le> 90)"
  unfolding is_upper_def Let_def int_of_char by auto

lemma is_lower_int: "is_lower c = (97 \<le> (of_char c :: int) \<and> (of_char c :: int) \<le> 122)"
  unfolding is_lower_def Let_def int_of_char by auto

lemma of_char_to_lower_int:
  "(of_char (to_lower c) :: int) = (if is_upper c then of_char c + 32 else of_char c)"
  unfolding int_of_char by (simp add: of_char_to_lower)

lemma of_char_to_upper_int:
  "(of_char (to_upper c) :: int) = (if is_lower c then of_char c - 32 else of_char c)"
proof (cases "is_lower c")
  case True
  then have "32 \<le> (of_char c :: nat)" by (simp add: is_lower_def Let_def)
  then show ?thesis using True unfolding int_of_char by (simp add: of_char_to_upper of_nat_diff)
next
  case False
  then show ?thesis by (simp add: to_upper_def)
qed

lemma is_cased_cp_of_char [simp]: "is_cased_cp (of_char c) = is_cased c"
  using int_of_char_bounds [of c]
  by (auto simp: is_cased_cp_def is_cased_def is_upper_int is_lower_int)

lemma lower_cp_of_char [simp]: "lower_cp (of_char c) = [of_char (to_lower c)]"
  by (simp add: lower_cp_def of_char_to_lower_int is_upper_int)

lemma title_cp_of_char [simp]: "title_cp (of_char c) = [of_char (to_upper c)]"
  using int_of_char_bounds [of c]
  by (auto simp: title_cp_def of_char_to_upper_int is_lower_int)

lemma is_space_cp_of_char:
  "(of_char c :: int) < 128 \<Longrightarrow> is_space_cp (of_char c) = is_space c"
  unfolding is_space_def Let_def is_space_cp_def int_of_char by auto

lemma blank_cp [simp]: "((of_char c :: int) = 32) = (c = CHR '' '')"
proof -
  have "(of_char CHR '' '' :: int) = 32" by simp
  then show ?thesis by (metis of_char_eq_iff)
qed

lemma is_sep_cp_of_char [simp]:
  "is_comma_or_semicolon_cp (of_char c) = is_comma_or_semicolon c"
proof -
  have "(of_char CHR '','' :: int) = 44" "(of_char CHR '';'' :: int) = 59" by simp_all
  then show ?thesis
    unfolding is_comma_or_semicolon_cp_def is_comma_or_semicolon_def by (metis of_char_eq_iff)
qed

lemma inj_py: "inj py"
  unfolding py_def by (simp add: inj_of_char)

lemma py_eq_iff [simp]: "(py s = py t) = (s = t)"
  using inj_py by (simp add: inj_eq)

lemma py_Nil [simp]: "py [] = []"
  by (simp add: py_def)

lemma py_eq_Nil [simp]: "(py s = []) = (s = [])"
  by (simp add: py_def)

lemma lower_u_py: "lower_u (py s) = py (lower s)"
  by (induction s) (simp_all add: lower_u_def py_def lower_def)

lemma title_from_u_py: "title_from_u p (py s) = py (title_from p s)"
  by (induction s arbitrary: p) (simp_all add: py_def)

lemma title_u_py: "title_u (py s) = py (title s)"
  by (simp add: title_u_def title_def title_from_u_py)

lemma count_spaces_u_py: "count_spaces_u (py s) = count_spaces s"
  by (induction s) (simp_all add: count_spaces_u_def count_spaces_def count_char_def py_def)

lemma dropWhile_map_agree:
  "\<forall>c \<in> set s. P (f c) = Q c \<Longrightarrow> dropWhile P (map f s) = map f (dropWhile Q s)"
  by (induction s) auto

lemma strip_u_py:
  assumes "\<forall>c \<in> set s. (of_char c :: int) < 128"
  shows "strip_u (py s) = py (strip s)"
proof -
  have a: "\<forall>c \<in> set s. is_space_cp (of_char c) = is_space c"
    using assms by (simp add: is_space_cp_of_char)
  then have 1: "dropWhile is_space_cp (map of_char s) = map of_char (dropWhile is_space s)"
    by (rule dropWhile_map_agree)
  have "\<forall>c \<in> set (rev (dropWhile is_space s)). is_space_cp (of_char c) = is_space c"
    using a by (auto dest: set_dropWhileD)
  then have 2: "dropWhile is_space_cp (map of_char (rev (dropWhile is_space s)))
      = map of_char (dropWhile is_space (rev (dropWhile is_space s)))"
    by (rule dropWhile_map_agree)
  show ?thesis by (simp add: strip_u_def strip_def py_def 1 2 rev_map)
qed

lemma split_on_u_py:
  "split_on_u is_comma_or_semicolon_cp (py s) = map py (split_on is_comma_or_semicolon s)"
proof (induction s)
  case Nil
  then show ?case by (simp add: py_def)
next
  case (Cons c s)
  obtain piece pieces where sp: "split_on is_comma_or_semicolon s = piece # pieces"
    by (cases "split_on is_comma_or_semicolon s") auto
  show ?case using Cons sp by (simp add: py_def)
qed

lemma split_ws_step:
  "split_ws (c # d # ds) =
     (if is_space c then split_ws (d # ds)
      else if is_space d then [c] # split_ws (d # ds)
      else (case split_ws (d # ds) of [] \<Rightarrow> [[c]] | w # ws \<Rightarrow> (c # w) # ws))"
  by (simp del: split_ws.simps add: split_ws.simps(2) [of c])

lemma split_ws_u_step:
  "split_ws_u (c # d # ds) =
     (if is_space_cp c then split_ws_u (d # ds)
      else if is_space_cp d then [c] # split_ws_u (d # ds)
      else (case split_ws_u (d # ds) of [] \<Rightarrow> [[c]] | w # ws \<Rightarrow> (c # w) # ws))"
  by (simp del: split_ws_u.simps add: split_ws_u.simps(2) [of c])

lemma split_ws_u_py:
  "\<forall>c \<in> set s. (of_char c :: int) < 128 \<Longrightarrow> split_ws_u (py s) = map py (split_ws s)"
proof (induction s)
  case Nil
  then show ?case by simp
next
  case (Cons c s)
  then have ih: "split_ws_u (map of_char s) = map (map of_char) (split_ws s)" by (simp add: py_def)
  have c: "is_space_cp (of_char c) = is_space c" using Cons.prems by (simp add: is_space_cp_of_char)
  show ?case
  proof (cases s)
    case Nil
    then show ?thesis using c by (simp add: py_def)
  next
    case s: (Cons d ds)
    have d: "is_space_cp (of_char d) = is_space d"
      using Cons.prems s by (simp add: is_space_cp_of_char)
    have ih': "split_ws_u (of_char d # map of_char ds) = map (map of_char) (split_ws (d # ds))"
      using ih s by simp
    define X where "X = split_ws (d # ds)"
    have "split_ws_u (of_char c # of_char d # map of_char ds)
        = map (map of_char) (split_ws (c # d # ds))"
      unfolding split_ws_u_step split_ws_step c d ih' X_def [symmetric]
      by (cases X) simp_all
    then show ?thesis using s by (simp add: py_def del: split_ws.simps split_ws_u.simps)
  qed
qed

lemma join_u_py: "join_u (py sep) (map py xs) = py (join sep xs)"
  by (induction sep xs rule: join.induct) (simp_all add: py_def)

lemma contains_u_sublist: "contains_u b s = sublist b s"
  by (induction s) (simp_all add: sublist_Cons_right)

lemma sublist_py: "sublist (py b) (py s) = sublist b s"
proof
  assume "sublist (py b) (py s)"
  then obtain b' where "sublist b' s" and "py b = map of_char b'"
    unfolding py_def using sublist_map_rightE by blast
  then show "sublist b s" by (simp add: py_def inj_of_char)
next
  assume "sublist b s"
  then obtain p q where "s = p @ b @ q" by (auto simp: sublist_def)
  then have "py s = py p @ py b @ py q" by (simp add: py_def)
  then show "sublist (py b) (py s)" by (auto simp: sublist_def)
qed

lemma ascii_to_lower: "(of_char c :: int) < 128 \<Longrightarrow> (of_char (to_lower c) :: int) < 128"
  by (auto simp: of_char_to_lower_int is_upper_int)

lemma ascii_to_upper: "(of_char c :: int) < 128 \<Longrightarrow> (of_char (to_upper c) :: int) < 128"
  by (auto simp: of_char_to_upper_int is_lower_int)

lemma ascii_lower:
  "\<forall>c \<in> set s. (of_char c :: int) < 128 \<Longrightarrow> \<forall>c \<in> set (lower s). (of_char c :: int) < 128"
  by (auto simp: lower_def ascii_to_lower)

lemma ascii_title_from:
  "\<forall>c \<in> set s. (of_char c :: int) < 128 \<Longrightarrow>
   \<forall>c \<in> set (title_from p s). (of_char c :: int) < 128"
  by (induction s arbitrary: p) (auto simp: ascii_to_lower ascii_to_upper)

lemma split_on_subset: "p \<in> set (split_on sep s) \<Longrightarrow> set p \<subseteq> set s"
proof (induction s arbitrary: p)
  case Nil
  then show ?case by simp
next
  case (Cons c cs)
  obtain piece pieces where sp: "split_on sep cs = piece # pieces"
    by (cases "split_on sep cs") auto
  have 1: "set piece \<subseteq> set cs" using Cons.IH [of piece] sp by simp
  have 2: "\<forall>q \<in> set pieces. set q \<subseteq> set cs" using Cons.IH sp by (metis list.set_intros(2))
  show ?case
  proof (cases "sep c")
    case True
    then have "p = [] \<or> p = piece \<or> p \<in> set pieces" using Cons.prems sp by auto
    then show ?thesis using 1 2 by auto
  next
    case False
    then have "p = c # piece \<or> p \<in> set pieces" using Cons.prems sp by simp
    then show ?thesis using 1 2 by auto
  qed
qed

lemma kw_list_subset: "kw \<in> set (kw_list raw) \<Longrightarrow> set kw \<subseteq> set raw"
proof -
  assume "kw \<in> set (kw_list raw)"
  then obtain k where k: "k \<in> set (split_on is_comma_or_semicolon raw)" and kw: "kw = strip k"
    by (auto simp: kw_list_def)
  have "set k \<subseteq> set raw" using k by (rule split_on_subset)
  then show ?thesis using kw set_strip by blast
qed

lemma set_join: "c \<in> set (join sep xs) \<Longrightarrow> c \<in> set sep \<or> (\<exists>x \<in> set xs. c \<in> set x)"
  by (induction sep xs rule: join.induct) auto

lemma strip_filter_py:
  "\<forall>k \<in> set xs. strip_u (py k) = py (strip k) \<Longrightarrow>
   map strip_u (filter (\<lambda>k. strip_u k \<noteq> []) (map py xs)) =
   map py (map strip (filter (\<lambda>k. strip k \<noteq> []) xs))"
  by (induction xs) auto

lemma kw_list_u_py:
  assumes "\<forall>c \<in> set s. (of_char c :: int) < 128"
  shows "kw_list_u (py s) = map py (kw_list s)"
proof -
  have "\<forall>k \<in> set (split_on is_comma_or_semicolon s). strip_u (py k) = py (strip k)"
  proof
    fix k assume "k \<in> set (split_on is_comma_or_semicolon s)"
    then have "set k \<subseteq> set s" by (rule split_on_subset)
    then have "\<forall>c \<in> set k. (of_char c :: int) < 128" using assms by auto
    then show "strip_u (py k) = py (strip k)" by (rule strip_u_py)
  qed
  then show ?thesis
    unfolding kw_list_u_def kw_list_def split_on_u_py
    by (rule strip_filter_py)
qed

lemma global_bans_u_mem [simp]: "(py l \<in> set global_bans_u) = (l \<in> set global_bans)"
  using inj_py by (auto simp: global_bans_u_def inj_eq)

lemma catalog_mem:
  "(py l \<in> set cat) = (l \<in> set (map (map char_of) (filter (\<lambda>b. py (map char_of b) = b) cat)))"
proof
  assume "py l \<in> set cat"
  moreover have "map char_of (py l) = l" by (simp add: py_def)
  ultimately show "l \<in> set (map (map char_of) (filter (\<lambda>b. py (map char_of b) = b) cat))"
    by force
next
  assume "l \<in> set (map (map char_of) (filter (\<lambda>b. py (map char_of b) = b) cat))"
  then show "py l \<in> set cat" by auto
qed

lemma catalog_sublist:
  "(\<exists>ban \<in> set cat. sublist ban (py l)) =
   (\<exists>ban \<in> set (map (map char_of) (filter (\<lambda>b. py (map char_of b) = b) cat)). sublist ban l)"
proof
  assume "\<exists>ban \<in> set cat. sublist ban (py l)"
  then obtain ban where b: "ban \<in> set cat" and s: "sublist ban (py l)" by blast
  then obtain b' where b': "sublist b' l" and e: "ban = map of_char b'"
    unfolding py_def using sublist_map_rightE by blast
  have "map char_of ban = b'" using e by simp
  moreover have "py (map char_of ban) = ban" using e by (simp add: py_def)
  ultimately show "\<exists>ban \<in> set (map (map char_of) (filter (\<lambda>b. py (map char_of b) = b) cat)). sublist ban l"
    using b b' by force
next
  assume "\<exists>ban \<in> set (map (map char_of) (filter (\<lambda>b. py (map char_of b) = b) cat)). sublist ban l"
  then obtain b where b: "b \<in> set cat" and p: "py (map char_of b) = b"
    and s: "sublist (map char_of b) l" by auto
  have "sublist (py (map char_of b)) (py l)" using s by (simp add: sublist_py)
  then show "\<exists>ban \<in> set cat. sublist ban (py l)" using b p by auto
qed

lemma has_ban_u_py:
  assumes "\<forall>c \<in> set l. (of_char c :: int) < 128"
  shows "has_ban_u cat (py l) =
    has_ban (map (map char_of) (filter (\<lambda>b. py (map char_of b) = b) cat)) l"
proof -
  have "(\<exists>ban \<in> set global_bans_u. ban \<in> set (split_ws_u (py l))) =
        (\<exists>ban \<in> set global_bans. ban \<in> set (split_ws l))"
    using assms inj_py by (auto simp: global_bans_u_def split_ws_u_py inj_eq)
  then show ?thesis
    unfolding has_ban_u_def has_ban_def contains_u_sublist contains_eq_sublist catalog_sublist
    by simp
qed

lemma final_kw_u_py:
  assumes "\<forall>c \<in> set kw. (of_char c :: int) < 128"
  shows "final_kw_u (py kw) = py (final_kw kw)"
proof -
  have "split_ws_u (lower_u (py kw)) = map py (split_ws (lower kw))"
    using assms by (simp add: lower_u_py split_ws_u_py ascii_lower)
  moreover have "\<And>ws. join_u [32] (map py ws) = py (join '' '' ws)"
    using join_u_py [of "'' ''"] by (simp add: py_def)
  ultimately show ?thesis
    by (simp add: final_kw_u_def final_kw_def Let_def title_u_py take_map)
qed

lemma final_keywords_u_py:
  assumes "\<forall>kw \<in> set kws. \<forall>c \<in> set kw. (of_char c :: int) < 128"
  shows "final_keywords_u cat (map py kws) =
    map py (final_keywords (map (map char_of) (filter (\<lambda>b. py (map char_of b) = b) cat)) kws)"
  using assms
proof (induction kws)
  case Nil
  then show ?case by simp
next
  case (Cons kw kws)
  have a: "\<forall>c \<in> set (lower kw). (of_char c :: int) < 128"
    using Cons.prems by (intro ascii_lower) simp
  have h: "has_ban_u cat (py (lower kw)) =
      has_ban (map (map char_of) (filter (\<lambda>b. py (map char_of b) = b) cat)) (lower kw)"
    using a by (rule has_ban_u_py)
  have f: "final_kw_u (py kw) = py (final_kw kw)"
    using Cons.prems by (simp add: final_kw_u_py)
  have ih: "final_keywords_u cat (map py kws) =
    map py (final_keywords (map (map char_of) (filter (\<lambda>b. py (map char_of b) = b) cat)) kws)"
    using Cons by simp
  show ?case
    using h f ih catalog_mem [of "lower kw" cat]
    by (simp add: Let_def lower_u_py del: set_map set_filter)
qed

lemma correct_keywords_u_short:
  "\<forall>kw \<in> set kws. count_spaces_u kw \<le> 2 \<Longrightarrow> correct_keywords_u rw calls kws = (kws, calls)"
  by (induction kws arbitrary: calls) (simp_all add: Let_def)

lemma process_keywords_u_py:
  assumes "\<forall>c \<in> set r. (of_char c :: int) < 128"
    and "\<forall>kw \<in> set (kw_list r). count_spaces kw \<le> 2"
  shows "process_keywords_u rw cat (py r) =
    py (process_keywords rw0 (map (map char_of) (filter (\<lambda>b. py (map char_of b) = b) cat)) r)"
    and "rewriter_calls_u rw (py r) = []"
proof -
  have kl: "kw_list_u (py r) = map py (kw_list r)" using assms(1) by (rule kw_list_u_py)
  have "\<forall>kw \<in> set (map py (kw_list r)). count_spaces_u kw \<le> 2"
    using assms(2) by (simp add: count_spaces_u_py)
  then have cu: "correct_keywords_u rw [] (map py (kw_list r)) = (map py (kw_list r), [])"
    by (rule correct_keywords_u_short)
  have cc: "correct_keywords rw0 [] (kw_list r) = (kw_list r, [])"
    using assms(2) by (rule correct_keywords_short)
  have "\<forall>kw \<in> set (kw_list r). \<forall>c \<in> set kw. (of_char c :: int) < 128"
    using assms(1) kw_list_subset by blast
  then have fk: "final_keywords_u cat (map py (kw_list r)) =
    map py (final_keywords (map (map char_of) (filter (\<lambda>b. py (map char_of b) = b) cat)) (kw_list r))"
    by (rule final_keywords_u_py)
  have j: "\<And>xs. join_u [44, 32] (map py xs) = py (join '', '' xs)"
    using join_u_py [of "'', ''"] by (simp add: py_def)
  show "process_keywords_u rw cat (py r) =
    py (process_keywords rw0 (map (map char_of) (filter (\<lambda>b. py (map char_of b) = b) cat)) r)"
    by (simp add: process_keywords_u_def process_keywords_def kl cu cc fk j)
  show "rewriter_calls_u rw (py r) = []"
    by (simp add: rewriter_calls_u_def kl cu)
qed

lemma normalised_short:
  assumes "\<forall>kw \<in> set (kw_list raw). count_spaces kw \<le> 2 \<and> length (split_ws kw) \<le> 3"
  shows "\<forall>f \<in> set (kw_list (process_keywords rw cat raw)).
           count_spaces f \<le> 2 \<and> length (split_ws f) \<le> 3"
proof -
  have "process_keywords rw cat raw =
      join '', '' (map title (filter (\<lambda>kw. \<not> has_ban cat (lower kw)) (kw_list raw)))"
    using assms by (rule process_keywords_short)
  then have "kw_list (process_keywords rw cat raw) =
      map title (filter (\<lambda>kw. \<not> has_ban cat (lower kw)) (kw_list raw))"
    by (simp only: kw_list_of_normalised)
  then show ?thesis using assms by (auto simp: title_def)
qed

lemma ascii_normalised:
  assumes "\<forall>c \<in> set raw. (of_char c :: int) < 128"
    and "\<forall>kw \<in> set (kw_list raw). count_spaces kw \<le> 2 \<and> length (split_ws kw) \<le> 3"
  shows "\<forall>c \<in> set (process_keywords rw cat raw). (of_char c :: int) < 128"
proof
  fix c assume c: "c \<in> set (process_keywords rw cat raw)"
  have "process_keywords rw cat raw =
      join '', '' (map title (filter (\<lambda>kw. \<not> has_ban cat (lower kw)) (kw_list raw)))"
    using assms(2) by (rule process_keywords_short)
  then have "c \<in> set '', '' \<or>
      (\<exists>x \<in> set (map title (filter (\<lambda>kw. \<not> has_ban cat (lower kw)) (kw_list raw))). c \<in> set x)"
    using c set_join by metis
  then show "(of_char c :: int) < 128"
  proof
    assume "c \<in> set '', ''"
    then show ?thesis by auto
  next
    assume "\<exists>x \<in> set (map title (filter (\<lambda>kw. \<not> has_ban cat (lower kw)) (kw_list raw))). c \<in> set x"
    then obtain kw where kw: "kw \<in> set (kw_list raw)" and ct: "c \<in> set (title kw)" by auto
    have "\<forall>d \<in> set kw. (of_char d :: int) < 128" using assms(1) kw kw_list_subset by blast
    then have "\<forall>d \<in> set (title kw). (of_char d :: int) < 128"
      unfolding title_def by (rule ascii_title_from)
    then show ?thesis using ct by blast
  qed
qed

lemma py_char_of:
  assumes "\<forall>n \<in> set raw. 0 \<le> n \<and> n < (128::int)"
  shows "py (map char_of raw) = raw" and "\<forall>c \<in> set (map char_of raw). (of_char c :: int) < 128"
proof -
  have m: "n mod 256 = n" if "0 \<le> n" and "n < 128" for n :: int
    using that by (intro mod_pos_pos_trivial) simp_all
  have "map (\<lambda>n. (of_char (char_of n :: char) :: int)) raw = raw"
    using assms by (intro map_idI) (simp add: m)
  then show "py (map char_of raw) = raw" by (simp add: py_def comp_def)
  show "\<forall>c \<in> set (map char_of raw). (of_char c :: int) < 128"
    using assms by (auto simp: m)
qed

text \<open>
  Claim C8, as amended. For every input string of ASCII characters in which no phrase is
  over-length (none has more than three words) and for which the model is never called
  (none has more than two blanks), normalising the result again gives the same result,
  with the same ban lists on both runs, and the model is called in neither run. Beyond
  ASCII this fails, because \<open>str.title()\<close> is not idempotent: the one-word input
  U+01F0 U+0061 is normalised to U+004A U+030C U+0061, and that to U+004A U+030C U+0041.
\<close>

theorem process_keywords_u_idempotent_ascii:
  assumes "\<forall>n \<in> set raw. 0 \<le> n \<and> n < 128"
    and "\<forall>kw \<in> set (kw_list_u raw). count_spaces_u kw \<le> 2 \<and> length (split_ws_u kw) \<le> 3"
  shows "rewriter_calls_u rw raw = [] \<and>
         rewriter_calls_u rw' (process_keywords_u rw cat raw) = [] \<and>
         process_keywords_u rw' cat (process_keywords_u rw cat raw) = process_keywords_u rw cat raw"
proof -
  define r where "r = map char_of raw"
  have raw: "raw = py r" and ar: "\<forall>c \<in> set r. (of_char c :: int) < 128"
    using py_char_of [OF assms(1)] by (simp_all add: r_def)
  have kl: "kw_list_u raw = map py (kw_list r)" unfolding raw using ar by (rule kw_list_u_py)
  have sh: "\<forall>kw \<in> set (kw_list r). count_spaces kw \<le> 2 \<and> length (split_ws kw) \<le> 3"
  proof
    fix kw assume kw: "kw \<in> set (kw_list r)"
    then have "py kw \<in> set (kw_list_u raw)" by (simp add: kl)
    then have "count_spaces_u (py kw) \<le> 2 \<and> length (split_ws_u (py kw)) \<le> 3"
      using assms(2) by blast
    moreover have "\<forall>c \<in> set kw. (of_char c :: int) < 128" using ar kw kw_list_subset by blast
    ultimately show "count_spaces kw \<le> 2 \<and> length (split_ws kw) \<le> 3"
      by (simp add: count_spaces_u_py split_ws_u_py)
  qed
  then have sh2: "\<forall>kw \<in> set (kw_list r). count_spaces kw \<le> 2" by simp
  define c where "c = map (map char_of) (filter (\<lambda>b. py (map char_of b) = b) cat)"
  define out where "out = process_keywords (\<lambda>n kw. None) c r"
  have 1: "process_keywords_u rw cat raw = py out"
    unfolding raw out_def c_def using ar sh2 by (rule process_keywords_u_py(1))
  have c1: "rewriter_calls_u rw raw = []"
    unfolding raw using ar sh2 by (rule process_keywords_u_py(2))
  have ao: "\<forall>d \<in> set out. (of_char d :: int) < 128"
    unfolding out_def using ar sh by (rule ascii_normalised)
  have so: "\<forall>f \<in> set (kw_list out). count_spaces f \<le> 2 \<and> length (split_ws f) \<le> 3"
    unfolding out_def using sh by (rule normalised_short)
  then have so2: "\<forall>f \<in> set (kw_list out). count_spaces f \<le> 2" by simp
  have 2: "process_keywords_u rw' cat (py out) = py (process_keywords (\<lambda>n kw. None) c out)"
    unfolding c_def using ao so2 by (rule process_keywords_u_py(1))
  have c2: "rewriter_calls_u rw' (py out) = []"
    using ao so2 by (rule process_keywords_u_py(2))
  have 3: "process_keywords (\<lambda>n kw. None) c out = out"
    unfolding out_def using process_keywords_idempotent [OF sh] by blast
  show ?thesis by (simp add: 1 2 3 c1 c2)
qed

theorem process_keywords_u_idempotent_ascii_witness:
  "process_keywords_u (\<lambda>n kw. Some (py ''rewritten'')) [py ''forbidden'']
     (py ''dark thriller, epic,  CHASE scene; dark thriller'')
     = py ''Dark Thriller, Chase Scene, Dark Thriller'' \<and>
   process_keywords_u (\<lambda>n kw. Some (py ''rewritten'')) [py ''forbidden'']
     (process_keywords_u (\<lambda>n kw. Some (py ''rewritten'')) [py ''forbidden'']
        (py ''dark thriller, epic,  CHASE scene; dark thriller''))
     = process_keywords_u (\<lambda>n kw. Some (py ''rewritten'')) [py ''forbidden'']
        (py ''dark thriller, epic,  CHASE scene; dark thriller'')"
proof -
  have a: "\<forall>n \<in> set (py ''dark thriller, epic,  CHASE scene; dark thriller''). 0 \<le> n \<and> n < 128"
    by code_simp
  have h: "\<forall>kw \<in> set (kw_list_u (py ''dark thriller, epic,  CHASE scene; dark thriller'')).
      count_spaces_u kw \<le> 2 \<and> length (split_ws_u kw) \<le> 3"
    by code_simp
  have v: "process_keywords_u (\<lambda>n kw. Some (py ''rewritten'')) [py ''forbidden'']
     (py ''dark thriller, epic,  CHASE scene; dark thriller'')
     = py ''Dark Thriller, Chase Scene, Dark Thriller''"
    by code_simp
  from process_keywords_u_idempotent_ascii [OF a h, of "\<lambda>n kw. Some (py ''rewritten'')"
      "\<lambda>n kw. Some (py ''rewritten'')" "[py ''forbidden'']"] v
  show ?thesis by blast
qed

theorem process_keywords_u_idempotent_counterexample:
  "rewriter_calls_u (\<lambda>n kw. None) [0x1F0, 0x61] = [] \<and>
   count_spaces_u [0x1F0, 0x61] = 0 \<and>
   length (split_ws_u [0x1F0, 0x61]) = 1 \<and>
   process_keywords_u (\<lambda>n kw. None) [] [0x1F0, 0x61] = [0x4A, 0x30C, 0x61] \<and>
   process_keywords_u (\<lambda>n kw. None) [] [0x4A, 0x30C, 0x61] = [0x4A, 0x30C, 0x41] \<and>
   process_keywords_u (\<lambda>n kw. None) [] (process_keywords_u (\<lambda>n kw. None) [] [0x1F0, 0x61])
     \<noteq> process_keywords_u (\<lambda>n kw. None) [] [0x1F0, 0x61]"
  by code_simp


section \<open>The archive with tracks\<close>

lemma select_columns_present:
  assumes "\<forall>key \<in> set columns. \<exists>t \<in> set records. track_field key t \<noteq> None"
  shows "select_columns records columns =
    Inr (Csv columns (map (\<lambda>t. map (\<lambda>key. track_field key t) columns) records))"
proof -
  have "filter (\<lambda>key. \<forall>t \<in> set records. track_field key t = None) columns = []"
    using assms by (auto simp: filter_empty_conv)
  then show ?thesis by (simp add: select_columns_def)
qed

text \<open>
  When each of the three keys is carried by at least one track, six entries are written,
  with the fixed names, and each table has one row per track in the order of the tracks.
\<close>

lemma compile_final_package_with_tracks:
  assumes "tracks data = Some trks" and "trks \<noteq> []"
    and "\<exists>t \<in> set trks. Title t \<noteq> None"
    and "\<exists>t \<in> set trks. Keywords t \<noteq> None"
    and "\<exists>t \<in> set trks. Track_Description t \<noteq> None"
  shows "compile_final_package data =
    Inr [(''01 Track Keywords/Track_Keywords.csv'',
            Csv [''Title'', ''Keywords''] (map (\<lambda>t. [Title t, Keywords t]) trks)),
         (''02 Track Descriptions/Track_Descriptions.csv'',
            Csv [''Title'', ''Track Description''] (map (\<lambda>t. [Title t, Track_Description t]) trks)),
         (''03 Album Description/Album_Description.txt'', Txt (get_or (album_description data) [])),
         (''04 Album Name/Album_Name.txt'', Txt (get_or (album_name data) [])),
         (''05 Album Cover Art/MidJourney_Prompts.txt'', Txt (get_or (cover_art data) [])),
         (''06 MailChimp Intro/MailChimp_Copy.txt'', Txt (get_or (mailchimp_intro data) []))]"
proof -
  have kw: "select_columns trks [''Title'', ''Keywords''] =
      Inr (Csv [''Title'', ''Keywords''] (map (\<lambda>t. [Title t, Keywords t]) trks))"
    using assms(3,4) by (subst select_columns_present) (simp_all add: track_field_def)
  have desc: "select_columns trks [''Title'', ''Track Description''] =
      Inr (Csv [''Title'', ''Track Description''] (map (\<lambda>t. [Title t, Track_Description t]) trks))"
    using assms(3,5) by (subst select_columns_present) (simp_all add: track_field_def)
  show ?thesis using assms(1,2)
    by (simp add: compile_final_package_def kw desc text_entries_def)
qed

lemma compile_final_package_two_tracks:
  "compile_final_package
     \<lparr>tracks = Some [\<lparr>Title = Some ''Night Drive'', Keywords = Some ''Dark Thriller'',
                      Track_Description = Some ''Slow pulse.''\<rparr>,
                     \<lparr>Title = Some ''Dawn'', Keywords = Some ''Calm, Warm'',
                      Track_Description = None\<rparr>],
      album_description = Some ''Quiet piano'', album_name = Some ''Nocturne'',
      cover_art = None, mailchimp_intro = Some ''Hello''\<rparr> =
    Inr [(''01 Track Keywords/Track_Keywords.csv'',
            Csv [''Title'', ''Keywords'']
              [[Some ''Night Drive'', Some ''Dark Thriller''], [Some ''Dawn'', Some ''Calm, Warm'']]),
         (''02 Track Descriptions/Track_Descriptions.csv'',
            Csv [''Title'', ''Track Description'']
              [[Some ''Night Drive'', Some ''Slow pulse.''], [Some ''Dawn'', None]]),
         (''03 Album Description/Album_Description.txt'', Txt ''Quiet piano''),
         (''04 Album Name/Album_Name.txt'', Txt ''Nocturne''),
         (''05 Album Cover Art/MidJourney_Prompts.txt'', Txt []),
         (''06 MailChimp Intro/MailChimp_Copy.txt'', Txt ''Hello'')]"
  using compile_final_package_with_tracks
    [of "\<lparr>tracks = Some [\<lparr>Title = Some ''Night Drive'', Keywords = Some ''Dark Thriller'',
                      Track_Description = Some ''Slow pulse.''\<rparr>,
                     \<lparr>Title = Some ''Dawn'', Keywords = Some ''Calm, Warm'',
                      Track_Description = None\<rparr>],
      album_description = Some ''Quiet piano'', album_name = Some ''Nocturne'',
      cover_art = None, mailchimp_intro = Some ''Hello''\<rparr>"
     "[\<lparr>Title = Some ''Night Drive'', Keywords = Some ''Dark Thriller'',
                      Track_Description = Some ''Slow pulse.''\<rparr>,
                     \<lparr>Title = Some ''Dawn'', Keywords = Some ''Calm, Warm'',
                      Track_Description = None\<rparr>]"]
  by (simp add: get_or_def)


end
